theory Spec2Isabelle
  imports Complex_Main "HOL-Library.Word"
begin

section \<open>Python values used by meshgenerator2.py\<close>

text \<open>
  The exceptions the two functions can raise on their own arithmetic and indexing.
  Failures of image decoding and of file writing belong to the libraries and are not
  modelled.
\<close>

datatype error = ZeroDivisionError | ValueError | IndexError

text \<open>
  A colour key is \<open>tuple(orig_pixels[y, x])\<close>: four unsigned 8-bit channels
  (red, green, blue, alpha). The decoded image \<open>orig_pixels\<close> is the list of its rows,
  so that its shape is \<open>(h, w, 4)\<close> with \<open>h\<close> the number of rows.
\<close>

type_synonym color = "8 word \<times> 8 word \<times> 8 word \<times> 8 word"

type_synonym pixels = "color list list"

definition alpha :: "color \<Rightarrow> 8 word" where
  "alpha c = snd (snd (snd c))"

definition height :: "pixels \<Rightarrow> nat" where
  "height px = length px"

definition width :: "pixels \<Rightarrow> nat" where
  "width px = (case px of [] \<Rightarrow> 0 | r # _ \<Rightarrow> length r)"

definition rectangular :: "pixels \<Rightarrow> bool" where
  "rectangular px = list_all (\<lambda>r. length r = width px) px"

text \<open>
  What \<open>np.array(Image.open(input_path).convert('RGBA'))\<close> gives: a rectangular array
  of a non-empty image. Pillow keeps the two sizes in C ints, hence the upper bounds.
\<close>

definition decoded_image :: "pixels \<Rightarrow> bool" where
  "decoded_image px \<longleftrightarrow>
     rectangular px \<and> 1 \<le> width px \<and> width px < 2 ^ 31 \<and>
     1 \<le> height px \<and> height px < 2 ^ 31"

text \<open>\<open>xs[a:b]\<close> for non-negative \<open>a\<close> and \<open>b\<close>: the slice is clipped, never an error.\<close>

definition slice :: "nat \<Rightarrow> nat \<Rightarrow> 'a list \<Rightarrow> 'a list" where
  "slice a b xs = take (b - a) (drop a xs)"

text \<open>\<open>orig_pixels[y, x]\<close>: an index outside the array raises.\<close>

definition pixel_at :: "pixels \<Rightarrow> nat \<Rightarrow> nat \<Rightarrow> error + color" where
  "pixel_at px y x =
     (if y < length px \<and> x < length (px ! y) then Inr (px ! y ! x) else Inl IndexError)"

subsection \<open>Double-precision arithmetic\<close>

text \<open>
  Python floats are IEEE binary64 values. A float is modelled by the real number it
  denotes, and every float operation rounds its exact result to the nearest value with a
  53-bit significand, ties to even (\<open>fl\<close>). The exponent is not bounded: overflow and
  subnormal numbers do not arise from the magnitudes this program computes.
\<close>

definition pow2 :: "int \<Rightarrow> real" where
  "pow2 i = (if 0 \<le> i then 2 ^ nat i else 1 / 2 ^ nat (- i))"

fun bit_length :: "nat \<Rightarrow> nat" where
  "bit_length n = (if n = 0 then 0 else Suc (bit_length (n div 2)))"

declare bit_length.simps [simp del]

text \<open>The exponent \<open>e\<close> with \<open>2 ^ e \<le> x < 2 ^ (e + 1)\<close>, for \<open>x > 0\<close>.\<close>

definition binade :: "real \<Rightarrow> int" where
  "binade x =
     (if 1 \<le> x then int (bit_length (nat \<lfloor>x\<rfloor>)) - 1
      else - int (bit_length (nat (\<lceil>1 / x\<rceil> - 1))))"

definition round_half_even :: "real \<Rightarrow> int" where
  "round_half_even r =
     (let f = \<lfloor>r\<rfloor>; d = r - of_int f
      in if d < 1 / 2 then f
         else if 1 / 2 < d then f + 1
         else if even f then f else f + 1)"

definition fl :: "real \<Rightarrow> real" where
  "fl x =
     (if x = 0 then 0
      else let e = binade \<bar>x\<bar>;
               m = round_half_even (\<bar>x\<bar> * pow2 (52 - e))
           in sgn x * of_int m * pow2 (e - 52))"

text \<open>\<open>a / b\<close> on two Python ints: the correctly rounded quotient, or an exception.\<close>

definition truediv :: "nat \<Rightarrow> nat \<Rightarrow> error + real" where
  "truediv a b = (if b = 0 then Inl ZeroDivisionError else Inr (fl (real a / real b)))"

text \<open>\<open>math.isqrt\<close>: the floor of the square root.\<close>

fun isqrt :: "nat \<Rightarrow> nat" where
  "isqrt n =
     (if n = 0 then 0
      else let r = 2 * isqrt (n div 4)
           in if (r + 1) * (r + 1) \<le> n then r + 1 else r)"

declare isqrt.simps [simp del]

text \<open>
  \<open>math.sqrt\<close> on an int below \<open>2 ^ 53\<close> (which converts to float exactly): the
  correctly rounded square root. The root is computed to 54 fractional bits, with half a
  unit added when it is inexact, which decides the rounding to 53 significant bits.
\<close>

definition math_sqrt :: "nat \<Rightarrow> real" where
  "math_sqrt n =
     (if n = 0 then 0
      else let s = isqrt (n * 2 ^ 108);
               sticky = (if s * s = n * 2 ^ 108 then 0 else 1 / 2)
           in fl ((real s + sticky) / 2 ^ 54))"

text \<open>\<open>math.ceil\<close> and \<open>int\<close> on a float; \<open>int\<close> truncates towards zero.\<close>

definition math_ceil :: "real \<Rightarrow> int" where
  "math_ceil x = \<lceil>x\<rceil>"

definition py_int :: "real \<Rightarrow> int" where
  "py_int x = (if 0 \<le> x then \<lfloor>x\<rfloor> else \<lceil>x\<rceil>)"

section \<open>The Atlas Builder: \<open>generate_color_atlas\<close>\<close>

type_synonym texture = "nat \<Rightarrow> nat \<Rightarrow> color"

type_synonym uv_map = "color \<rightharpoonup> real \<times> real"

definition tex_size :: nat where
  "tex_size = 1024"

definition max_colors :: nat where
  "max_colors = tex_size * tex_size"

text \<open>The set built by the scan of lines 14 to 19: the colour keys with alpha above 0.\<close>

definition visible_colors :: "pixels \<Rightarrow> color set" where
  "visible_colors px = {c \<in> set (concat px). 0 < alpha c}"

text \<open>
  \<open>list(unique_colors)\<close> enumerates the set in an order Python does not specify. The
  model takes that list as an argument; \<open>set_enumeration px cs\<close> says that \<open>cs\<close> is
  such an enumeration for the image \<open>px\<close>.
\<close>

definition set_enumeration :: "pixels \<Rightarrow> color list \<Rightarrow> bool" where
  "set_enumeration px cs \<longleftrightarrow> distinct cs \<and> set cs = visible_colors px"

text \<open>Lines 29 to 32: the colours kept, and their number.\<close>

definition truncate_colors :: "color list \<Rightarrow> color list" where
  "truncate_colors cs = (if max_colors < length cs then take max_colors cs else cs)"

text \<open>Lines 35 and 36: \<open>cols\<close> and \<open>rows\<close>; the division raises when \<open>cols\<close> is 0.\<close>

definition grid_dims :: "nat \<Rightarrow> error + nat \<times> nat" where
  "grid_dims num_colors =
     (let cols = nat (math_ceil (math_sqrt num_colors))
      in case truediv num_colors cols of
           Inl e \<Rightarrow> Inl e
         | Inr q \<Rightarrow> Inr (cols, nat (math_ceil q)))"

text \<open>
  The pixel bounds of cell \<open>i\<close> (lines 47 to 53 and 64 to 69), as
  \<open>(x_start, x_end, y_start, y_end)\<close>.
\<close>

definition cell_bounds :: "real \<Rightarrow> real \<Rightarrow> nat \<Rightarrow> nat \<Rightarrow> nat \<times> nat \<times> nat \<times> nat" where
  "cell_bounds cell_w cell_h cols i =
     (let col = i mod cols;
          row = i div cols;
          x_start = nat (py_int (fl (real col * cell_w)));
          x_end = nat (py_int (fl (real (col + 1) * cell_w)));
          y_start = nat (py_int (fl (real row * cell_h)));
          y_end = nat (py_int (fl (real (row + 1) * cell_h)))
      in (x_start, x_end, y_start, y_end))"

text \<open>\<open>texture[y_start:y_end, x_start:x_end] = color\<close> on the 1024 by 1024 array.\<close>

definition fill_rect :: "texture \<Rightarrow> nat \<Rightarrow> nat \<Rightarrow> nat \<Rightarrow> nat \<Rightarrow> color \<Rightarrow> texture" where
  "fill_rect texture y_start y_end x_start x_end c =
     (\<lambda>y x. if y_start \<le> y \<and> y < y_end \<and> y < tex_size \<and>
                x_start \<le> x \<and> x < x_end \<and> x < tex_size
             then c else texture y x)"

text \<open>The UV centre of a cell (lines 58 and 59).\<close>

definition cell_uv :: "nat \<times> nat \<times> nat \<times> nat \<Rightarrow> real \<times> real" where
  "cell_uv b =
     (case b of (x_start, x_end, y_start, y_end) \<Rightarrow>
        (fl (real (x_start + x_end) / real (2 * tex_size)),
         fl (real (y_start + y_end) / real (2 * tex_size))))"

text \<open>The loop of lines 46 to 60 over \<open>enumerate(unique_colors)\<close>.\<close>

fun pack_colors ::
  "real \<Rightarrow> real \<Rightarrow> nat \<Rightarrow> (nat \<times> color) list \<Rightarrow> texture \<times> uv_map \<Rightarrow> texture \<times> uv_map" where
  "pack_colors cell_w cell_h cols [] st = st"
| "pack_colors cell_w cell_h cols ((i, c) # rest) (texture, color_to_uv) =
     (case cell_bounds cell_w cell_h cols i of (x_start, x_end, y_start, y_end) \<Rightarrow>
        pack_colors cell_w cell_h cols rest
          (fill_rect texture y_start y_end x_start x_end c,
           color_to_uv(c \<mapsto> cell_uv (x_start, x_end, y_start, y_end))))"

text \<open>
  The loop of lines 63 to 71 over \<open>range(num_colors, cols * rows)\<close>. It reads
  \<open>unique_colors[-1]\<close> at each step, which raises on an empty list.
\<close>

definition opaque :: "color \<Rightarrow> color" where
  "opaque c = (case c of (r, g, b, a) \<Rightarrow> (r, g, b, 255))"

fun fill_remaining ::
  "real \<Rightarrow> real \<Rightarrow> nat \<Rightarrow> color list \<Rightarrow> nat list \<Rightarrow> texture \<Rightarrow> error + texture" where
  "fill_remaining cell_w cell_h cols unique_colors [] texture = Inr texture"
| "fill_remaining cell_w cell_h cols unique_colors (i # rest) texture =
     (case cell_bounds cell_w cell_h cols i of (x_start, x_end, y_start, y_end) \<Rightarrow>
        if unique_colors = [] then Inl IndexError
        else fill_remaining cell_w cell_h cols unique_colors rest
               (fill_rect texture y_start y_end x_start x_end (opaque (last unique_colors))))"

text \<open>
  \<open>generate_color_atlas\<close>, given the decoded image and the enumeration of its colour
  set. The result is the texture that is saved, the colour-to-UV dictionary and
  \<open>(w, h)\<close>.
\<close>

definition generate_color_atlas ::
  "color list \<Rightarrow> pixels \<Rightarrow> error + texture \<times> uv_map \<times> nat \<times> nat" where
  "generate_color_atlas cs orig_pixels =
     (let h = height orig_pixels;
          w = width orig_pixels;
          unique_colors = truncate_colors cs;
          num_colors = length unique_colors
      in case grid_dims num_colors of
           Inl e \<Rightarrow> Inl e
         | Inr (cols, rows) \<Rightarrow>
             (case truediv tex_size cols of
                Inl e \<Rightarrow> Inl e
              | Inr cell_w \<Rightarrow>
                  (case truediv tex_size rows of
                     Inl e \<Rightarrow> Inl e
                   | Inr cell_h \<Rightarrow>
                       (case pack_colors cell_w cell_h cols (enumerate 0 unique_colors)
                               (\<lambda>y x. (0, 0, 0, 0), Map.empty) of
                          (texture, color_to_uv) \<Rightarrow>
                            (case fill_remaining cell_w cell_h cols unique_colors
                                    [num_colors..<cols * rows] texture of
                               Inl e \<Rightarrow> Inl e
                             | Inr texture' \<Rightarrow> Inr (texture', color_to_uv, w, h))))))"

section \<open>The Mesh Tiler: \<open>create_tiled_meshes\<close>\<close>

definition is_tile_fully_transparent :: "pixels \<Rightarrow> nat \<Rightarrow> nat \<Rightarrow> nat \<Rightarrow> nat \<Rightarrow> bool" where
  "is_tile_fully_transparent orig_pixels x_start x_end y_start y_end =
     (let tile_alpha = map (\<lambda>row. map alpha (slice x_start x_end row))
                           (slice y_start y_end orig_pixels)
      in list_all (list_all (\<lambda>a. a = 0)) tile_alpha)"

text \<open>
  The lines of a mesh file: the tile comment, \<open>v x y z\<close>, \<open>vt u v\<close> and
  \<open>f i1/j1 i2/j2 i3/j3 i4/j4\<close> with its vertex/UV index pairs.
\<close>

datatype obj_line =
    is_Comment: Comment nat nat
  | is_V: V int int int
  | is_VT: VT real real
  | is_F: F (face: "(nat \<times> nat) list")

text \<open>Decimal output of a non-negative int in an f-string, and the file name of a tile.\<close>

definition digit :: "nat \<Rightarrow> char" where
  "digit d = ''0123456789'' ! d"

fun str_nat :: "nat \<Rightarrow> string" where
  "str_nat n =
     (if n < 10 then [digit n]
      else str_nat (n div 10) @ [digit (n mod 10)])"

declare str_nat.simps [simp del]

definition tile_name :: "nat \<Rightarrow> nat \<Rightarrow> string" where
  "tile_name tile_x tile_y = ''pixel_mesh_'' @ str_nat tile_x @ ''_'' @ str_nat tile_y @ ''.obj''"

text \<open>Lines 89 to 94: the tile shape and the number of tiles in each direction.\<close>

definition tiling :: "nat \<Rightarrow> nat \<Rightarrow> int \<Rightarrow> error + nat \<times> nat \<times> nat \<times> nat" where
  "tiling orig_w orig_h max_tris =
     (let max_pixels_per_mesh = max_tris div 2
      in if max_pixels_per_mesh < 0 then Inl ValueError
         else let cols_per_mesh = min orig_w (isqrt (nat max_pixels_per_mesh))
              in if cols_per_mesh = 0 then Inl ZeroDivisionError
                 else let rows_per_mesh = min orig_h (nat max_pixels_per_mesh div cols_per_mesh)
                      in case truediv orig_w cols_per_mesh of
                           Inl e \<Rightarrow> Inl e
                         | Inr qx \<Rightarrow>
                             (case truediv orig_h rows_per_mesh of
                                Inl e \<Rightarrow> Inl e
                              | Inr qy \<Rightarrow>
                                  Inr (cols_per_mesh, rows_per_mesh,
                                       nat (math_ceil qx), nat (math_ceil qy))))"

text \<open>Lines 103 to 106: the rectangle \<open>(x_start, x_end, y_start, y_end)\<close> of a tile.\<close>

definition tile_rect ::
  "nat \<Rightarrow> nat \<Rightarrow> nat \<Rightarrow> nat \<Rightarrow> nat \<Rightarrow> nat \<Rightarrow> nat \<times> nat \<times> nat \<times> nat" where
  "tile_rect orig_w orig_h cols_per_mesh rows_per_mesh tile_x tile_y =
     (tile_x * cols_per_mesh, min ((tile_x + 1) * cols_per_mesh) orig_w,
      tile_y * rows_per_mesh, min ((tile_y + 1) * rows_per_mesh) orig_h)"

text \<open>
  The tiles \<open>(tile_y, tile_x)\<close> in the order of the loops of lines 100 and 101, and the
  pixels \<open>(y, x)\<close> that the loops of lines 126 and 127 visit for a tile.
\<close>

definition tiles :: "nat \<Rightarrow> nat \<Rightarrow> (nat \<times> nat) list" where
  "tiles num_meshes_x num_meshes_y = List.product [0..<num_meshes_y] [0..<num_meshes_x]"

definition tile_pixels :: "nat \<times> nat \<times> nat \<times> nat \<Rightarrow> (nat \<times> nat) list" where
  "tile_pixels r =
     (case r of (x_start, x_end, y_start, y_end) \<Rightarrow>
        List.product [y_start..<y_end] [x_start..<x_end])"

definition tile_pixel_list :: "nat \<Rightarrow> nat \<Rightarrow> nat \<Rightarrow> nat \<Rightarrow> nat \<times> nat \<Rightarrow> (nat \<times> nat) list" where
  "tile_pixel_list orig_w orig_h cols_per_mesh rows_per_mesh t =
     (case t of (tile_y, tile_x) \<Rightarrow>
        tile_pixels (tile_rect orig_w orig_h cols_per_mesh rows_per_mesh tile_x tile_y))"

definition tile_region :: "nat \<Rightarrow> nat \<Rightarrow> nat \<Rightarrow> nat \<Rightarrow> nat \<times> nat \<Rightarrow> (nat \<times> nat) set" where
  "tile_region orig_w orig_h cols_per_mesh rows_per_mesh t =
     set (tile_pixel_list orig_w orig_h cols_per_mesh rows_per_mesh t)"

text \<open>Lines 130 to 145: what one pixel adds to the file.\<close>

definition write_pixel ::
  "nat \<Rightarrow> uv_map \<Rightarrow> color \<Rightarrow> nat \<Rightarrow> nat \<Rightarrow> nat \<Rightarrow> nat \<Rightarrow> obj_line list" where
  "write_pixel orig_h color_to_uv c x y vertex_index uv_index =
     (case (case color_to_uv c of Some uv \<Rightarrow> uv | None \<Rightarrow> (0, 0)) of (u, v) \<Rightarrow>
        [V (int x) (int orig_h - int y) 0,
         V (int x + 1) (int orig_h - int y) 0,
         V (int x + 1) (int orig_h - int y - 1) 0,
         V (int x) (int orig_h - int y - 1) 0,
         VT u (fl (1 - v)),
         VT u (fl (1 - v)),
         VT u (fl (1 - v)),
         VT u (fl (1 - v))]
        @ (if 0 < alpha c
           then [F [(vertex_index, uv_index), (vertex_index + 1, uv_index + 1),
                    (vertex_index + 2, uv_index + 2), (vertex_index + 3, uv_index + 3)]]
           else []))"

text \<open>
  The two loops of lines 126 and 127 over the pixels \<open>(y, x)\<close> of a tile, row by row. The
  state is the text written so far and the two index counters.
\<close>

fun write_pixels ::
  "pixels \<Rightarrow> nat \<Rightarrow> uv_map \<Rightarrow> (nat \<times> nat) list \<Rightarrow> obj_line list \<times> nat \<times> nat \<Rightarrow>
   error + obj_line list \<times> nat \<times> nat" where
  "write_pixels orig_pixels orig_h color_to_uv [] st = Inr st"
| "write_pixels orig_pixels orig_h color_to_uv ((y, x) # rest) (f, vertex_index, uv_index) =
     (case pixel_at orig_pixels y x of
        Inl e \<Rightarrow> Inl e
      | Inr c \<Rightarrow>
          write_pixels orig_pixels orig_h color_to_uv rest
            (f @ write_pixel orig_h color_to_uv c x y vertex_index uv_index,
             vertex_index + 4, uv_index + 4))"

text \<open>
  The text that the pixel loops add to a file when no index is out of range: pixel number
  \<open>k\<close> of the list (counted from \<open>n\<close>) is written with both counters at
  \<open>4 * k + 1\<close>. It is the closed form of \<open>write_pixels\<close> used in the proofs.
\<close>

definition mesh_text ::
  "pixels \<Rightarrow> nat \<Rightarrow> uv_map \<Rightarrow> nat \<Rightarrow> (nat \<times> nat) list \<Rightarrow> obj_line list" where
  "mesh_text orig_pixels orig_h color_to_uv n ps =
     concat (map (\<lambda>(k, (y, x)).
                    write_pixel orig_h color_to_uv (orig_pixels ! y ! x) x y (4 * k + 1) (4 * k + 1))
                 (enumerate n ps))"

text \<open>
  For a tile \<open>t = (tile_y, tile_x)\<close>: the outcome of the test of line 109, the name of
  its file (line 113), and the whole text of its file when the pixel loops run without an
  index error.
\<close>

definition tile_skipped :: "pixels \<Rightarrow> nat \<Rightarrow> nat \<Rightarrow> nat \<Rightarrow> nat \<Rightarrow> nat \<times> nat \<Rightarrow> bool" where
  "tile_skipped orig_pixels orig_w orig_h cols_per_mesh rows_per_mesh t =
     (case t of (tile_y, tile_x) \<Rightarrow>
        (case tile_rect orig_w orig_h cols_per_mesh rows_per_mesh tile_x tile_y of
           (x_start, x_end, y_start, y_end) \<Rightarrow>
             is_tile_fully_transparent orig_pixels x_start x_end y_start y_end))"

definition tile_file_name :: "nat \<times> nat \<Rightarrow> string" where
  "tile_file_name t = (case t of (tile_y, tile_x) \<Rightarrow> tile_name tile_x tile_y)"

definition tile_text ::
  "pixels \<Rightarrow> uv_map \<Rightarrow> nat \<Rightarrow> nat \<Rightarrow> nat \<Rightarrow> nat \<Rightarrow> nat \<times> nat \<Rightarrow> obj_line list" where
  "tile_text orig_pixels color_to_uv orig_w orig_h cols_per_mesh rows_per_mesh t =
     (case t of (tile_y, tile_x) \<Rightarrow>
        Comment tile_x tile_y #
        mesh_text orig_pixels orig_h color_to_uv 0
          (tile_pixels (tile_rect orig_w orig_h cols_per_mesh rows_per_mesh tile_x tile_y)))"

text \<open>
  The state of the run: the list \<open>mesh_paths\<close>, the counter \<open>skipped_tiles\<close> and the
  files written so far, by name.
\<close>

record tiler_state =
  mesh_paths :: "string list"
  skipped_tiles :: nat
  files :: "string \<rightharpoonup> obj_line list"

text \<open>The body of the tile loop, lines 102 to 148.\<close>

definition process_tile ::
  "pixels \<Rightarrow> uv_map \<Rightarrow> nat \<Rightarrow> nat \<Rightarrow> nat \<Rightarrow> nat \<Rightarrow> nat \<Rightarrow> nat \<Rightarrow> tiler_state \<Rightarrow>
   error + tiler_state" where
  "process_tile orig_pixels color_to_uv orig_w orig_h cols_per_mesh rows_per_mesh tile_x tile_y st =
     (case tile_rect orig_w orig_h cols_per_mesh rows_per_mesh tile_x tile_y of
        (x_start, x_end, y_start, y_end) \<Rightarrow>
          if is_tile_fully_transparent orig_pixels x_start x_end y_start y_end
          then Inr (st\<lparr>skipped_tiles := skipped_tiles st + 1\<rparr>)
          else
            (case write_pixels orig_pixels orig_h color_to_uv
                    (tile_pixels (x_start, x_end, y_start, y_end))
                    ([Comment tile_x tile_y], 1, 1) of
               Inl e \<Rightarrow> Inl e
             | Inr (f, vertex_index, uv_index) \<Rightarrow>
                 Inr (st\<lparr>mesh_paths := mesh_paths st @ [tile_name tile_x tile_y],
                         files := (files st)(tile_name tile_x tile_y \<mapsto> f)\<rparr>)))"

text \<open>The loops of lines 100 and 101 over the tiles \<open>(tile_y, tile_x)\<close>, row by row.\<close>

fun tiles_loop ::
  "pixels \<Rightarrow> uv_map \<Rightarrow> nat \<Rightarrow> nat \<Rightarrow> nat \<Rightarrow> nat \<Rightarrow> (nat \<times> nat) list \<Rightarrow> tiler_state \<Rightarrow>
   error + tiler_state" where
  "tiles_loop orig_pixels color_to_uv orig_w orig_h cols_per_mesh rows_per_mesh [] st = Inr st"
| "tiles_loop orig_pixels color_to_uv orig_w orig_h cols_per_mesh rows_per_mesh
     ((tile_y, tile_x) # rest) st =
     (case process_tile orig_pixels color_to_uv orig_w orig_h cols_per_mesh rows_per_mesh
             tile_x tile_y st of
        Inl e \<Rightarrow> Inl e
      | Inr st' \<Rightarrow>
          tiles_loop orig_pixels color_to_uv orig_w orig_h cols_per_mesh rows_per_mesh rest st')"

definition create_tiled_meshes ::
  "pixels \<Rightarrow> uv_map \<Rightarrow> nat \<times> nat \<Rightarrow> int \<Rightarrow> error + tiler_state" where
  "create_tiled_meshes orig_pixels color_to_uv original_dims max_tris =
     (case original_dims of (orig_w, orig_h) \<Rightarrow>
        (case tiling orig_w orig_h max_tris of
           Inl e \<Rightarrow> Inl e
         | Inr (cols_per_mesh, rows_per_mesh, num_meshes_x, num_meshes_y) \<Rightarrow>
             tiles_loop orig_pixels color_to_uv orig_w orig_h cols_per_mesh rows_per_mesh
               (tiles num_meshes_x num_meshes_y)
               \<lparr>mesh_paths = [], skipped_tiles = 0, files = Map.empty\<rparr>))"

section \<open>Properties of the rounding\<close>

lemma pow2_powi: "pow2 i = power_int 2 i"
  by (simp add: pow2_def power_int_def inverse_eq_divide power_one_over)

lemma pow2_pos [simp]: "0 < pow2 i"
  by (simp add: pow2_powi)

lemma pow2_add: "pow2 (i + j) = pow2 i * pow2 j"
  by (simp add: pow2_powi power_int_add)

lemma pow2_nat [simp]: "pow2 (int n) = 2 ^ n"
  by (simp add: pow2_def)

lemma pow2_numeral [simp]: "pow2 (numeral k) = 2 ^ numeral k"
  by (simp add: pow2_def)

lemma pow2_neg [simp]: "pow2 (- int n) = 1 / 2 ^ n"
  by (cases "n = 0") (simp_all add: pow2_def)

lemma pow2_less_iff [simp]: "pow2 i < pow2 j \<longleftrightarrow> i < j"
proof
  assume "pow2 i < pow2 j"
  show "i < j"
  proof (rule ccontr)
    assume "\<not> i < j"
    then have "pow2 j \<le> pow2 i"
      unfolding pow2_powi by (intro power_int_increasing) auto
    with \<open>pow2 i < pow2 j\<close> show False by simp
  qed
next
  assume "i < j"
  then show "pow2 i < pow2 j"
    unfolding pow2_powi by (intro power_int_strict_increasing) auto
qed

lemma pow2_le_iff [simp]: "pow2 i \<le> pow2 j \<longleftrightarrow> i \<le> j"
  using pow2_less_iff [of j i] by (simp only: not_less [symmetric])

lemma bit_length_upper: "n < 2 ^ bit_length n"
proof (induction n rule: bit_length.induct)
  case (1 n)
  show ?case
  proof (cases "n = 0")
    case True
    then show ?thesis by (simp add: bit_length.simps)
  next
    case False
    with 1 have "n div 2 < 2 ^ bit_length (n div 2)" by simp
    then have "n < 2 * 2 ^ bit_length (n div 2)" by linarith
    with False show ?thesis by (subst bit_length.simps) simp
  qed
qed

lemma bit_length_lower: "0 < n \<Longrightarrow> 2 ^ (bit_length n - 1) \<le> n"
proof (induction n rule: bit_length.induct)
  case (1 n)
  then have n: "n \<noteq> 0" by simp
  show ?case
  proof (cases "n div 2 = 0")
    case True
    then have "bit_length n = 1" using n
      by (subst bit_length.simps, subst bit_length.simps) simp
    with n show ?thesis by simp
  next
    case False
    with 1 n have ih: "2 ^ (bit_length (n div 2) - 1) \<le> n div 2" by simp
    have pos: "0 < bit_length (n div 2)" using False by (subst bit_length.simps) simp
    have "bit_length n - 1 = Suc (bit_length (n div 2) - 1)"
      using n pos by (subst bit_length.simps) simp
    then have "(2::nat) ^ (bit_length n - 1) = 2 * 2 ^ (bit_length (n div 2) - 1)" by simp
    also have "\<dots> \<le> 2 * (n div 2)" using ih by simp
    also have "\<dots> \<le> n" by simp
    finally show ?thesis .
  qed
qed

lemma bit_length_pos: "0 < n \<Longrightarrow> 0 < bit_length n"
  by (subst bit_length.simps) simp

lemma binade_bounds:
  assumes "0 < x"
  shows "pow2 (binade x) \<le> x" and "x < pow2 (binade x + 1)"
proof -
  show "pow2 (binade x) \<le> x"
  proof (cases "1 \<le> x")
    case True
    define n where "n = nat \<lfloor>x\<rfloor>"
    have n: "0 < n" "real n \<le> x" using True by (auto simp: n_def)
    have "binade x = int (bit_length n - 1)"
      using True bit_length_pos [OF n(1)] by (simp add: binade_def n_def)
    then have "pow2 (binade x) = 2 ^ (bit_length n - 1)" by simp
    also have "\<dots> \<le> real n"
      using bit_length_lower [OF n(1)] by (metis of_nat_le_iff of_nat_numeral of_nat_power)
    also have "\<dots> \<le> x" by (rule n(2))
    finally show ?thesis .
  next
    case False
    define y where "y = 1 / x"
    define m where "m = nat (\<lceil>y\<rceil> - 1)"
    have y: "1 < y" using False assms by (simp add: y_def)
    have "y \<le> real_of_int \<lceil>y\<rceil>" by simp
    also have "\<dots> = real m + 1" using y by (simp add: m_def)
    also have "\<dots> \<le> 2 ^ bit_length m"
      using bit_length_upper [of m]
      by (metis Suc_leI of_nat_Suc of_nat_le_iff of_nat_numeral of_nat_power add.commute)
    finally have "y \<le> 2 ^ bit_length m" .
    then have "1 / 2 ^ bit_length m \<le> x"
      using assms by (simp add: y_def field_simps)
    moreover have "binade x = - int (bit_length m)"
      using False by (simp add: binade_def m_def y_def)
    ultimately show ?thesis by simp
  qed
  show "x < pow2 (binade x + 1)"
  proof (cases "1 \<le> x")
    case True
    define n where "n = nat \<lfloor>x\<rfloor>"
    have n: "0 < n" "x < real n + 1" using True by (auto simp: n_def)
    have "binade x + 1 = int (bit_length n)"
      using True bit_length_pos [OF n(1)] by (simp add: binade_def n_def)
    moreover have "real n + 1 \<le> 2 ^ bit_length n"
      using bit_length_upper [of n]
      by (metis Suc_leI of_nat_Suc of_nat_le_iff of_nat_numeral of_nat_power add.commute)
    ultimately show ?thesis using n by simp
  next
    case False
    define y where "y = 1 / x"
    define m where "m = nat (\<lceil>y\<rceil> - 1)"
    have y: "1 < y" using False assms by (simp add: y_def)
    then have m: "0 < m" by (simp add: m_def)
    have e: "binade x + 1 = - int (bit_length m - 1)"
      using False bit_length_pos [OF m] by (simp add: binade_def m_def y_def)
    have "(2::real) ^ (bit_length m - 1) \<le> real m"
      using bit_length_lower [OF m] by (metis of_nat_le_iff of_nat_numeral of_nat_power)
    also have "real m < y" using y by (simp add: m_def) linarith
    finally have "2 ^ (bit_length m - 1) < y" .
    then have "x < 1 / 2 ^ (bit_length m - 1)"
      using assms by (simp add: y_def field_simps)
    then show ?thesis unfolding e by simp
  qed
qed

lemma binade_unique:
  assumes "pow2 e \<le> x" "x < pow2 (e + 1)"
  shows "binade x = e"
proof -
  have x: "0 < x" using assms(1) pow2_pos [of e] by linarith
  have "pow2 (binade x) < pow2 (e + 1)"
    using binade_bounds(1) [OF x] assms(2) by linarith
  moreover have "pow2 e < pow2 (binade x + 1)"
    using binade_bounds(2) [OF x] assms(1) by linarith
  ultimately show ?thesis by simp
qed


lemma round_half_even_of_int [simp]: "round_half_even (of_int k) = k"
  by (simp add: round_half_even_def)

lemma round_half_even_cases:
  "round_half_even r = \<lfloor>r\<rfloor> \<or> round_half_even r = \<lfloor>r\<rfloor> + 1"
  by (simp add: round_half_even_def Let_def)

lemma round_half_even_error: "\<bar>of_int (round_half_even r) - r\<bar> \<le> 1 / 2"
proof -
  have "of_int \<lfloor>r\<rfloor> \<le> r" "r < of_int \<lfloor>r\<rfloor> + 1" by linarith+
  then show ?thesis
    by (auto simp: round_half_even_def Let_def)
qed

lemma round_half_even_mono:
  assumes "r \<le> s"
  shows "round_half_even r \<le> round_half_even s"
proof (cases "\<lfloor>r\<rfloor> = \<lfloor>s\<rfloor>")
  case True
  with assms show ?thesis
    by (auto simp: round_half_even_def Let_def)
next
  case False
  with assms have "\<lfloor>r\<rfloor> + 1 \<le> \<lfloor>s\<rfloor>"
    using floor_mono [OF assms] by linarith
  moreover have "round_half_even r \<le> \<lfloor>r\<rfloor> + 1"
    using round_half_even_cases [of r] by linarith
  moreover have "\<lfloor>s\<rfloor> \<le> round_half_even s"
    using round_half_even_cases [of s] by linarith
  ultimately show ?thesis by linarith
qed

text \<open>The rounding of a positive number, with its significand made explicit.\<close>

lemma fl_pos_eq:
  assumes "0 < x"
  shows "fl x = of_int (round_half_even (x * pow2 (52 - binade x))) * pow2 (binade x - 52)"
  using assms by (simp add: fl_def Let_def)

lemma significand_range:
  assumes "0 < x"
  shows "pow2 52 \<le> x * pow2 (52 - binade x)" and "x * pow2 (52 - binade x) < pow2 53"
proof -
  have "pow2 52 = pow2 (binade x) * pow2 (52 - binade x)"
    by (simp flip: pow2_add)
  also have "\<dots> \<le> x * pow2 (52 - binade x)"
    by (intro mult_right_mono binade_bounds(1) less_imp_le pow2_pos assms)
  finally show "pow2 52 \<le> x * pow2 (52 - binade x)" .
  have "x * pow2 (52 - binade x) < pow2 (binade x + 1) * pow2 (52 - binade x)"
    by (intro mult_strict_right_mono binade_bounds(2) pow2_pos assms)
  also have "\<dots> = pow2 53"
    by (simp flip: pow2_add)
  finally show "x * pow2 (52 - binade x) < pow2 53" .
qed

lemma pow2_of_int: "pow2 (int n) = real_of_int (2 ^ n)"
  by simp

lemma round_half_even_pow2 [simp]: "round_half_even (pow2 (int n)) = 2 ^ n"
  by (simp only: pow2_of_int round_half_even_of_int)

lemma fl_range:
  assumes "0 < x"
  shows "pow2 (binade x) \<le> fl x" and "fl x \<le> pow2 (binade x + 1)"
proof -
  let ?M = "x * pow2 (52 - binade x)"
  have "round_half_even (pow2 (int 52)) \<le> round_half_even ?M"
    using significand_range(1) [OF assms] by (intro round_half_even_mono) simp
  then have "real_of_int (2 ^ 52) \<le> real_of_int (round_half_even ?M)"
    by (simp only: round_half_even_pow2 of_int_le_iff)
  then have lo: "pow2 52 \<le> real_of_int (round_half_even ?M)"
    using pow2_of_int [of 52] by simp
  have "round_half_even ?M \<le> round_half_even (pow2 (int 53))"
    using significand_range(2) [OF assms] by (intro round_half_even_mono) simp
  then have "real_of_int (round_half_even ?M) \<le> real_of_int (2 ^ 53)"
    by (simp only: round_half_even_pow2 of_int_le_iff)
  then have hi: "real_of_int (round_half_even ?M) \<le> pow2 53"
    using pow2_of_int [of 53] by simp
  have "52 + (binade x - 52) = binade x" by simp
  then have "pow2 (binade x) = pow2 (52 + (binade x - 52))" by simp
  also have "\<dots> = pow2 52 * pow2 (binade x - 52)"
    by (simp only: pow2_add)
  also have "\<dots> \<le> real_of_int (round_half_even ?M) * pow2 (binade x - 52)"
    by (intro mult_right_mono lo less_imp_le pow2_pos)
  finally show "pow2 (binade x) \<le> fl x"
    by (simp only: fl_pos_eq [OF assms])
  have "real_of_int (round_half_even ?M) * pow2 (binade x - 52) \<le> pow2 53 * pow2 (binade x - 52)"
    by (intro mult_right_mono hi less_imp_le pow2_pos)
  also have "\<dots> = pow2 (53 + (binade x - 52))"
    by (simp only: pow2_add)
  also have "53 + (binade x - 52) = binade x + 1" by simp
  finally show "fl x \<le> pow2 (binade x + 1)"
    by (simp only: fl_pos_eq [OF assms])
qed

lemma binade_mono:
  assumes "0 < x" "x \<le> y"
  shows "binade x \<le> binade y"
proof -
  have y: "0 < y" using assms by linarith
  have "pow2 (binade x) < pow2 (binade y + 1)"
    using binade_bounds(1) [OF assms(1)] binade_bounds(2) [OF y] assms(2) by linarith
  then show ?thesis by simp
qed

lemma fl_zero [simp]: "fl 0 = 0"
  by (simp add: fl_def)

lemma fl_pos: "0 < x \<Longrightarrow> 0 < fl x"
  using fl_range(1) [of x] pow2_pos [of "binade x"] by linarith

lemma fl_mono:
  assumes "0 \<le> x" "x \<le> y"
  shows "fl x \<le> fl y"
proof (cases "x = 0")
  case True
  show ?thesis
  proof (cases "y = 0")
    case True
    with \<open>x = 0\<close> show ?thesis by simp
  next
    case False
    with assms have "0 < y" by linarith
    from fl_pos [OF this] True show ?thesis by simp
  qed
next
  case False
  with assms have x: "0 < x" and y: "0 < y" by linarith+
  show ?thesis
  proof (cases "binade x = binade y")
    case True
    have "x * pow2 (52 - binade y) \<le> y * pow2 (52 - binade y)"
      using assms(2) by (intro mult_right_mono) (auto intro: less_imp_le)
    then have "round_half_even (x * pow2 (52 - binade y)) \<le> round_half_even (y * pow2 (52 - binade y))"
      by (rule round_half_even_mono)
    then have "real_of_int (round_half_even (x * pow2 (52 - binade y))) * pow2 (binade y - 52)
          \<le> real_of_int (round_half_even (y * pow2 (52 - binade y))) * pow2 (binade y - 52)"
      by (intro mult_right_mono) (auto intro: less_imp_le)
    then show ?thesis
      by (simp only: fl_pos_eq [OF x] fl_pos_eq [OF y] True)
  next
    case False
    with binade_mono [OF x assms(2)] have "binade x + 1 \<le> binade y" by linarith
    then have "pow2 (binade x + 1) \<le> pow2 (binade y)" by simp
    with fl_range(2) [OF x] fl_range(1) [OF y] show ?thesis by linarith
  qed
qed


text \<open>A number with a significand below \<open>2 ^ 53\<close> is a float: rounding leaves it alone.\<close>

lemma fl_exact_dyadic:
  assumes "m < 2 ^ 53"
  shows "fl (real m * pow2 j) = real m * pow2 j"
proof (cases "m = 0")
  case True
  then show ?thesis by simp
next
  case False
  then have m: "0 < m" by simp
  define b where "b = bit_length m"
  define x where "x = real m * pow2 j"
  define e where "e = j + int b - 1"
  have x: "0 < x" using m by (simp add: x_def)
  have lo_nat: "2 ^ (b - 1) \<le> m" and hi_nat: "m < 2 ^ b"
    using bit_length_lower [OF m] bit_length_upper [of m] by (simp_all add: b_def)
  have b1: "1 \<le> b" using bit_length_pos [OF m] by (simp add: b_def)
  have "b - 1 < 53"
  proof (rule power_less_imp_less_exp)
    show "(1::nat) < 2" by simp
    show "(2::nat) ^ (b - 1) < 2 ^ 53" using lo_nat assms by linarith
  qed
  then have b53: "b \<le> 53" by simp
  have lo: "(2::real) ^ (b - 1) \<le> real m"
    using lo_nat by (metis of_nat_le_iff of_nat_numeral of_nat_power)
  have hi: "real m < 2 ^ b"
    using hi_nat by (metis of_nat_less_iff of_nat_numeral of_nat_power)
  have e_lo: "e = int (b - 1) + j" and e_hi: "e + 1 = int b + j"
    using b1 by (simp_all add: e_def)
  have "pow2 e = pow2 (int (b - 1)) * pow2 j"
    by (simp only: e_lo pow2_add)
  also have "\<dots> \<le> x"
    unfolding x_def using lo by (intro mult_right_mono) (simp_all add: less_imp_le)
  finally have 1: "pow2 e \<le> x" .
  have "x < pow2 (int b) * pow2 j"
    unfolding x_def using hi by (intro mult_strict_right_mono pow2_pos) simp
  also have "\<dots> = pow2 (e + 1)"
    by (simp only: e_hi pow2_add)
  finally have 2: "x < pow2 (e + 1)" .
  have be: "binade x = e" by (rule binade_unique [OF 1 2])
  have "j + (52 - e) = int (53 - b)" using b53 by (simp add: e_def)
  then have "pow2 (int (53 - b)) = pow2 j * pow2 (52 - e)"
    by (simp only: pow2_add [symmetric])
  then have "x * pow2 (52 - e) = real m * pow2 (int (53 - b))"
    by (simp add: x_def)
  also have "\<dots> = real_of_int (int m * 2 ^ (53 - b))"
    by simp
  finally have M: "x * pow2 (52 - e) = real_of_int (int m * 2 ^ (53 - b))" .
  have "int (53 - b) + (e - 52) = j" using b53 by (simp add: e_def)
  then have unscale: "pow2 (int (53 - b)) * pow2 (e - 52) = pow2 j"
    by (simp only: pow2_add [symmetric])
  have "fl x = real_of_int (int m * 2 ^ (53 - b)) * pow2 (e - 52)"
    by (simp only: fl_pos_eq [OF x] be M round_half_even_of_int)
  also have "\<dots> = real m * (pow2 (int (53 - b)) * pow2 (e - 52))"
    by simp
  also have "\<dots> = x"
    by (simp only: unscale x_def)
  finally show ?thesis by (simp only: x_def)
qed

lemma fl_of_nat: "n < 2 ^ 53 \<Longrightarrow> fl (real n) = real n"
  using fl_exact_dyadic [of n 0] by (simp add: pow2_def)

lemma fl_error:
  assumes "0 < x"
  shows "\<bar>fl x - x\<bar> \<le> x / 2 ^ 53"
proof -
  define e where "e = binade x"
  define M where "M = x * pow2 (52 - e)"
  have "(52 - e) + (e - 52) = 0" by simp
  then have "pow2 (52 - e) * pow2 (e - 52) = pow2 0"
    by (simp only: pow2_add [symmetric])
  then have unit: "pow2 (52 - e) * pow2 (e - 52) = 1" by (simp add: pow2_def)
  then have xM: "x = M * pow2 (e - 52)" by (simp add: M_def)
  have flx: "fl x = real_of_int (round_half_even M) * pow2 (e - 52)"
    unfolding M_def e_def by (rule fl_pos_eq [OF assms])
  have "fl x - x = real_of_int (round_half_even M) * pow2 (e - 52) - M * pow2 (e - 52)"
    by (simp only: flx xM [symmetric])
  then have "fl x - x = (real_of_int (round_half_even M) - M) * pow2 (e - 52)"
    by (simp only: left_diff_distrib)
  then have "\<bar>fl x - x\<bar> = \<bar>real_of_int (round_half_even M) - M\<bar> * pow2 (e - 52)"
    by (simp add: abs_mult abs_of_pos)
  also have "\<dots> \<le> (1 / 2) * pow2 (e - 52)"
    by (intro mult_right_mono round_half_even_error less_imp_le pow2_pos)
  also have "\<dots> = pow2 e * pow2 (- 53)"
  proof -
    have "e + (- 53) = (- 1) + (e - 52)" by simp
    then have "pow2 e * pow2 (- 53) = pow2 (- 1) * pow2 (e - 52)"
      by (simp only: pow2_add [symmetric])
    then show ?thesis by (simp add: pow2_def)
  qed
  also have "\<dots> \<le> x * pow2 (- 53)"
    using binade_bounds(1) [OF assms] unfolding e_def
    by (intro mult_right_mono) (simp_all add: less_imp_le)
  finally show ?thesis by (simp add: pow2_def)
qed

section \<open>Library functions: \<open>math.isqrt\<close> and the ceiling of a quotient\<close>

lemma isqrt_correct: "isqrt n * isqrt n \<le> n \<and> n < (isqrt n + 1) * (isqrt n + 1)"
proof (induction n rule: isqrt.induct)
  case (1 n)
  show ?case
  proof (cases "n = 0")
    case True
    then show ?thesis by (simp add: isqrt.simps)
  next
    case False
    define q where "q = isqrt (n div 4)"
    have ih: "q * q \<le> n div 4" "n div 4 < (q + 1) * (q + 1)"
      using 1 False by (simp_all add: q_def)
    have lo: "(2 * q) * (2 * q) \<le> n"
    proof -
      have "(2 * q) * (2 * q) = 4 * (q * q)" by simp
      also have "\<dots> \<le> 4 * (n div 4)" using ih(1) by simp
      also have "\<dots> \<le> n" by simp
      finally show ?thesis .
    qed
    have hi: "n < (2 * q + 2) * (2 * q + 2)"
    proof -
      have "n div 4 + 1 \<le> (q + 1) * (q + 1)" using ih(2) by simp
      then have "4 * (n div 4 + 1) \<le> 4 * ((q + 1) * (q + 1))" by simp
      moreover have "n < 4 * (n div 4 + 1)" by simp
      moreover have "4 * ((q + 1) * (q + 1)) = (2 * q + 2) * (2 * q + 2)" by (simp add: algebra_simps)
      ultimately show ?thesis by linarith
    qed
    have eq: "isqrt n = (if (2 * q + 1) * (2 * q + 1) \<le> n then 2 * q + 1 else 2 * q)"
      using False by (subst isqrt.simps) (simp add: q_def Let_def)
    show ?thesis
    proof (cases "(2 * q + 1) * (2 * q + 1) \<le> n")
      case True
      with eq hi show ?thesis by (simp add: numeral_2_eq_2 add.commute)
    next
      case False
      with eq lo show ?thesis by simp
    qed
  qed
qed

lemma isqrt_pos: "0 < n \<Longrightarrow> 0 < isqrt n"
  using isqrt_correct [of n] by (cases "isqrt n = 0") simp_all

lemma isqrt_le: "isqrt n \<le> n"
proof -
  have "isqrt n \<le> isqrt n * isqrt n" by (cases "isqrt n") simp_all
  with isqrt_correct [of n] show ?thesis by linarith
qed

lemma isqrt_unique:
  assumes "r * r \<le> n" "n < (r + 1) * (r + 1)"
  shows "isqrt n = r"
proof (rule ccontr)
  assume ne: "isqrt n \<noteq> r"
  show False
  proof (cases "isqrt n < r")
    case True
    then have "isqrt n + 1 \<le> r" by simp
    then have "(isqrt n + 1) * (isqrt n + 1) \<le> r * r" by (intro mult_le_mono)
    with isqrt_correct [of n] assms(1) show False by linarith
  next
    case False
    with ne have "r + 1 \<le> isqrt n" by simp
    then have "(r + 1) * (r + 1) \<le> isqrt n * isqrt n" by (intro mult_le_mono)
    with isqrt_correct [of n] assms(2) show False by linarith
  qed
qed

text \<open>The ceiling of a rounded quotient of naturals is the ceiling of the quotient.\<close>

lemma ceiling_fl_divide:
  assumes "0 < b" "a < 2 ^ 52"
  shows "\<lceil>fl (real a / real b)\<rceil> = \<lceil>real a / real b\<rceil>"
proof (cases "a = 0")
  case True
  then show ?thesis by simp
next
  case False
  define x where "x = real a / real b"
  define k where "k = \<lceil>x\<rceil>"
  have x: "0 < x" using False assms by (simp add: x_def)
  have k1: "1 \<le> k" using x by (simp add: k_def)
  have xa: "x \<le> real a"
  proof -
    have "real a / real b \<le> real a / 1"
      using assms(1) by (intro divide_left_mono) simp_all
    then show ?thesis by (simp add: x_def)
  qed
  have "k \<le> int a"
    unfolding k_def using xa by (simp add: ceiling_le_iff)
  then have kn: "nat k < 2 ^ 53" using assms(2) by simp
  have "fl x \<le> fl (real (nat k))"
    using x k1 by (intro fl_mono) (simp_all add: k_def less_imp_le)
  also have "\<dots> = real (nat k)" by (rule fl_of_nat [OF kn])
  also have "\<dots> = real_of_int k" using k1 by simp
  finally have up: "\<lceil>fl x\<rceil> \<le> k" by (simp add: ceiling_le_iff)
  have "real_of_int k - 1 < fl x"
  proof (cases "x = real_of_int k")
    case True
    then have "fl x = real (nat k)" using fl_of_nat [OF kn] k1 by simp
    then show ?thesis using k1 by simp
  next
    case False
    have "real_of_int k - 1 < x" unfolding k_def by linarith
    then have "(real_of_int k - 1) * real b < real a"
      using assms(1) by (simp add: x_def field_simps)
    then have "real_of_int ((k - 1) * int b) < real_of_int (int a)" by simp
    then have "(k - 1) * int b < int a" by (simp only: of_int_less_iff)
    then have "(k - 1) * int b + 1 \<le> int a" by simp
    then have "real_of_int ((k - 1) * int b + 1) \<le> real_of_int (int a)"
      by (simp only: of_int_le_iff)
    then have "(real_of_int k - 1) * real b + 1 \<le> real a" by simp
    then have "((real_of_int k - 1) * real b + 1) / real b \<le> real a / real b"
      by (intro divide_right_mono) simp_all
    moreover have "((real_of_int k - 1) * real b + 1) / real b = real_of_int k - 1 + 1 / real b"
      using assms(1) by (simp add: add_divide_distrib)
    ultimately have gap: "real_of_int k - 1 + 1 / real b \<le> x"
      by (simp only: x_def)
    have "x / 2 ^ 53 < 1 / real b"
    proof -
      have "a < 2 ^ 53" using assms(2) by simp
      then have "real a < 2 ^ 53"
        by (metis of_nat_less_iff of_nat_numeral of_nat_power)
      then show ?thesis using assms(1) by (simp add: x_def field_simps)
    qed
    with fl_error [OF x] gap show ?thesis by linarith
  qed
  then have "k - 1 < \<lceil>fl x\<rceil>" by (simp add: less_ceiling_iff)
  with up show ?thesis by (simp add: x_def k_def)
qed

section \<open>The tile grid\<close>

lemma nat_ceiling_divide:
  fixes w c :: nat
  assumes "0 < c"
  defines "n \<equiv> nat \<lceil>real w / real c\<rceil>"
  shows "w \<le> n * c" and "0 < w \<Longrightarrow> (n - 1) * c < w" and "0 < w \<Longrightarrow> 0 < n"
proof -
  have nonneg: "0 \<le> real w / real c" by simp
  then have n_eq: "real n = real_of_int \<lceil>real w / real c\<rceil>"
    by (simp add: n_def)
  have "real w / real c \<le> real n" unfolding n_eq by simp
  then have "real w \<le> real n * real c"
    using assms(1) by (simp add: field_simps)
  then have "real w \<le> real (n * c)" by simp
  then show "w \<le> n * c" by (simp only: of_nat_le_iff)
  assume w: "0 < w"
  then have "0 < real w / real c" using assms(1) by simp
  then have "0 < \<lceil>real w / real c\<rceil>" by simp
  then show n_pos: "0 < n" by (simp add: n_def)
  have "real n - 1 < real w / real c" unfolding n_eq by linarith
  then have "(real n - 1) * real c < real w"
    using assms(1) by (simp add: field_simps)
  moreover have "real ((n - 1) * c) = (real n - 1) * real c"
    using n_pos by simp
  ultimately have "real ((n - 1) * c) < real w" by (simp only:)
  then show "(n - 1) * c < w" by (simp only: of_nat_less_iff)
qed

text \<open>What \<open>tiling\<close> returns for a non-empty image and a budget of at least 2.\<close>

lemma tiling_Inr:
  assumes "1 \<le> orig_w" "orig_w < 2 ^ 31" "1 \<le> orig_h" "orig_h < 2 ^ 31" "2 \<le> max_tris"
  defines "m \<equiv> nat (max_tris div 2)"
  defines "c \<equiv> min orig_w (isqrt m)"
  defines "r \<equiv> min orig_h (m div c)"
  shows "tiling orig_w orig_h max_tris =
           Inr (c, r, nat \<lceil>real orig_w / real c\<rceil>, nat \<lceil>real orig_h / real r\<rceil>)"
    and "1 \<le> c" and "1 \<le> r" and "c * r \<le> m" and "2 * int m \<le> max_tris"
proof -
  have m1: "1 \<le> m" using assms(5) by (simp add: m_def)
  show m2: "2 * int m \<le> max_tris" using assms(5) by (simp add: m_def)
  have "0 < isqrt m" using m1 by (intro isqrt_pos) simp
  then show c1: "1 \<le> c" using assms(1) by (simp add: c_def)
  have "c \<le> isqrt m" by (simp add: c_def)
  also have "\<dots> \<le> m" by (rule isqrt_le)
  finally have cm: "c \<le> m" .
  have "c * 1 \<le> m" using cm by simp
  then have "1 \<le> m div c" using c1 by (simp add: less_eq_div_iff_mult_less_eq)
  then show r1: "1 \<le> r" using assms(3) by (simp add: r_def)
  have "c * r \<le> c * (m div c)" by (simp add: r_def)
  also have "\<dots> \<le> m" by simp
  finally show "c * r \<le> m" .
  have w52: "orig_w < 2 ^ 52" and h52: "orig_h < 2 ^ 52"
    using assms(2,4) by simp_all
  have qx: "\<lceil>fl (real orig_w / real c)\<rceil> = \<lceil>real orig_w / real c\<rceil>"
    using c1 w52 by (intro ceiling_fl_divide) simp_all
  have qy: "\<lceil>fl (real orig_h / real r)\<rceil> = \<lceil>real orig_h / real r\<rceil>"
    using r1 h52 by (intro ceiling_fl_divide) simp_all
  have nonneg: "\<not> max_tris div 2 < 0" using assms(5) by simp
  show "tiling orig_w orig_h max_tris =
           Inr (c, r, nat \<lceil>real orig_w / real c\<rceil>, nat \<lceil>real orig_h / real r\<rceil>)"
  proof -
    have tx: "truediv orig_w c = Inr (fl (real orig_w / real c))"
      using c1 by (simp add: truediv_def)
    have ty: "truediv orig_h r = Inr (fl (real orig_h / real r))"
      using r1 by (simp add: truediv_def)
    have c0: "c \<noteq> 0" using c1 by simp
    show ?thesis
      unfolding tiling_def Let_def m_def [symmetric] c_def [symmetric] r_def [symmetric]
      by (simp only: nonneg c0 tx ty if_False sum.case math_ceil_def qx qy)
  qed
qed

lemma in_tile_pixels:
  "(y, x) \<in> set (tile_pixels (x_start, x_end, y_start, y_end)) \<longleftrightarrow>
     x_start \<le> x \<and> x < x_end \<and> y_start \<le> y \<and> y < y_end"
  by (auto simp: tile_pixels_def)

text \<open>
  One axis of the grid: \<open>n\<close> intervals of length \<open>c\<close>, the last one clipped at \<open>w\<close>.
\<close>

lemma axis_cover:
  fixes c n w x :: nat
  assumes "0 < c" "w \<le> n * c" "x < w"
  shows "x div c < n" and "(x div c) * c \<le> x" and "x < min ((x div c + 1) * c) w"
proof -
  have "x < n * c" using assms(2,3) by linarith
  then show "x div c < n" using assms(1) by (simp add: less_mult_imp_div_less)
  show "(x div c) * c \<le> x" by simp
  have "x < (x div c + 1) * c"
    using assms(1) by (metis Suc_eq_plus1 dividend_less_div_times mult.commute mult_Suc)
  with assms(3) show "x < min ((x div c + 1) * c) w" by simp
qed

lemma axis_unique:
  fixes c t w x :: nat
  assumes "t * c \<le> x" "x < min ((t + 1) * c) w"
  shows "t = x div c"
proof -
  have c: "0 < c" using assms by (cases "c = 0") simp_all
  have "x < (t + 1) * c" using assms(2) by simp
  then have "x div c < t + 1" using c by (simp add: less_mult_imp_div_less)
  moreover have "t \<le> x div c" using assms(1) c by (simp add: less_eq_div_iff_mult_less_eq)
  ultimately show ?thesis by linarith
qed

lemma axis_extent:
  fixes c n t w :: nat
  assumes "0 < c" "(n - 1) * c < w" "t < n"
  shows "t * c < min ((t + 1) * c) w" and "min ((t + 1) * c) w - t * c \<le> c"
    and "min ((t + 1) * c) w \<le> w"
proof -
  have "t \<le> n - 1" using assms(3) by simp
  then have "t * c \<le> (n - 1) * c" by (intro mult_le_mono) simp_all
  then have "t * c < w" using assms(2) by linarith
  moreover have "t * c < (t + 1) * c" using assms(1) by simp
  ultimately show "t * c < min ((t + 1) * c) w" by simp
  have "min ((t + 1) * c) w \<le> (t + 1) * c" by simp
  also have "\<dots> = t * c + c" by simp
  finally show "min ((t + 1) * c) w - t * c \<le> c" by linarith
  show "min ((t + 1) * c) w \<le> w" by simp
qed


text \<open>The facts about the grid that the tile loop relies on.\<close>

lemma tiling_grid:
  assumes "1 \<le> orig_w" "orig_w < 2 ^ 31" "1 \<le> orig_h" "orig_h < 2 ^ 31" "2 \<le> max_tris"
  obtains c r nx ny where
    "tiling orig_w orig_h max_tris = Inr (c, r, nx, ny)"
    "c = min orig_w (isqrt (nat (max_tris div 2)))"
    "r = min orig_h (nat (max_tris div 2) div c)"
    "0 < c" "0 < r" "2 * int (c * r) \<le> max_tris"
    "orig_w \<le> nx * c" "(nx - 1) * c < orig_w"
    "orig_h \<le> ny * r" "(ny - 1) * r < orig_h"
proof -
  define m where "m = nat (max_tris div 2)"
  define c where "c = min orig_w (isqrt m)"
  define r where "r = min orig_h (m div c)"
  define nx where "nx = nat \<lceil>real orig_w / real c\<rceil>"
  define ny where "ny = nat \<lceil>real orig_h / real r\<rceil>"
  note t = tiling_Inr [OF assms, folded m_def, folded c_def, folded r_def, folded nx_def ny_def]
  have c: "0 < c" and r: "0 < r" using t(2,3) by simp_all
  have "int (c * r) \<le> int m" using t(4) by (simp only: of_nat_le_iff)
  then have "2 * int (c * r) \<le> 2 * int m" by linarith
  then have budget: "2 * int (c * r) \<le> max_tris" using t(5) by linarith
  have w: "0 < orig_w" and h: "0 < orig_h" using assms(1,3) by simp_all
  show thesis
  proof (rule that [of c r nx ny])
    show "tiling orig_w orig_h max_tris = Inr (c, r, nx, ny)" by (rule t(1))
    show "c = min orig_w (isqrt (nat (max_tris div 2)))" by (simp add: c_def m_def)
    show "r = min orig_h (nat (max_tris div 2) div c)" by (simp add: r_def m_def)
    show "0 < c" "0 < r" by (rule c, rule r)
    show "2 * int (c * r) \<le> max_tris" by (rule budget)
    show "orig_w \<le> nx * c" unfolding nx_def by (rule nat_ceiling_divide(1) [OF c])
    show "(nx - 1) * c < orig_w" unfolding nx_def by (rule nat_ceiling_divide(2) [OF c w])
    show "orig_h \<le> ny * r" unfolding ny_def by (rule nat_ceiling_divide(1) [OF r])
    show "(ny - 1) * r < orig_h" unfolding ny_def by (rule nat_ceiling_divide(2) [OF r h])
  qed
qed

section \<open>Claims about the tile grid\<close>

text \<open>
  C4. For an image of width and height at least 1 (and below \<open>2 ^ 31\<close>, as every decoded
  image is) and a triangle budget of at least 2, the tiler computes
  \<open>cols_per_mesh = min(w, isqrt(max_tris // 2))\<close> and
  \<open>rows_per_mesh = min(h, (max_tris // 2) // cols_per_mesh)\<close>, and every tile rectangle
  of the grid is non-empty and satisfies
  \<open>(x_end - x_start) * (y_end - y_start) * 2 \<le> max_tris\<close>.
\<close>

theorem tile_within_triangle_budget:
  assumes "1 \<le> orig_w" "orig_w < 2 ^ 31" "1 \<le> orig_h" "orig_h < 2 ^ 31" "2 \<le> max_tris"
  shows "\<exists>cols_per_mesh rows_per_mesh num_meshes_x num_meshes_y.
           tiling orig_w orig_h max_tris =
             Inr (cols_per_mesh, rows_per_mesh, num_meshes_x, num_meshes_y) \<and>
           cols_per_mesh = min orig_w (isqrt (nat (max_tris div 2))) \<and>
           rows_per_mesh = min orig_h (nat (max_tris div 2) div cols_per_mesh) \<and>
           (\<forall>tile_x < num_meshes_x. \<forall>tile_y < num_meshes_y.
              case tile_rect orig_w orig_h cols_per_mesh rows_per_mesh tile_x tile_y of
                (x_start, x_end, y_start, y_end) \<Rightarrow>
                  x_start < x_end \<and> y_start < y_end \<and>
                  (int x_end - int x_start) * (int y_end - int y_start) * 2 \<le> max_tris)"
proof -
  from tiling_grid [OF assms] obtain c r nx ny where g:
    "tiling orig_w orig_h max_tris = Inr (c, r, nx, ny)"
    "c = min orig_w (isqrt (nat (max_tris div 2)))"
    "r = min orig_h (nat (max_tris div 2) div c)"
    "0 < c" "0 < r" "2 * int (c * r) \<le> max_tris"
    "orig_w \<le> nx * c" "(nx - 1) * c < orig_w"
    "orig_h \<le> ny * r" "(ny - 1) * r < orig_h"
    by blast
  have "x_start < x_end \<and> y_start < y_end \<and>
        (int x_end - int x_start) * (int y_end - int y_start) * 2 \<le> max_tris"
    if "tile_x < nx" "tile_y < ny"
       "tile_rect orig_w orig_h c r tile_x tile_y = (x_start, x_end, y_start, y_end)"
    for tile_x tile_y x_start x_end y_start y_end
  proof -
    have xs: "x_start = tile_x * c" and xe: "x_end = min ((tile_x + 1) * c) orig_w"
      and ys: "y_start = tile_y * r" and ye: "y_end = min ((tile_y + 1) * r) orig_h"
      using that(3) by (auto simp: tile_rect_def)
    have x: "x_start < x_end" "x_end - x_start \<le> c"
      unfolding xs xe using axis_extent [OF g(4) g(8) that(1)] by simp_all
    have y: "y_start < y_end" "y_end - y_start \<le> r"
      unfolding ys ye using axis_extent [OF g(5) g(10) that(2)] by simp_all
    have "(x_end - x_start) * (y_end - y_start) \<le> c * r"
      using x(2) y(2) by (rule mult_le_mono)
    then have "int ((x_end - x_start) * (y_end - y_start)) \<le> int (c * r)"
      by (simp only: of_nat_le_iff)
    moreover have "int ((x_end - x_start) * (y_end - y_start)) =
                   (int x_end - int x_start) * (int y_end - int y_start)"
      using x(1) y(1) by simp
    ultimately have "(int x_end - int x_start) * (int y_end - int y_start) * 2 \<le> max_tris"
      using g(6) by linarith
    with x(1) y(1) show ?thesis by simp
  qed
  note tile = this
  have "\<forall>tile_x < nx. \<forall>tile_y < ny.
              case tile_rect orig_w orig_h c r tile_x tile_y of
                (x_start, x_end, y_start, y_end) \<Rightarrow>
                  x_start < x_end \<and> y_start < y_end \<and>
                  (int x_end - int x_start) * (int y_end - int y_start) * 2 \<le> max_tris"
  proof (intro allI impI)
    fix tile_x tile_y
    assume t: "tile_x < nx" "tile_y < ny"
    obtain x_start x_end y_start y_end where
      rect: "tile_rect orig_w orig_h c r tile_x tile_y = (x_start, x_end, y_start, y_end)"
      by (rule prod_cases4)
    from tile [OF t rect] show
      "case tile_rect orig_w orig_h c r tile_x tile_y of
         (x_start, x_end, y_start, y_end) \<Rightarrow>
           x_start < x_end \<and> y_start < y_end \<and>
           (int x_end - int x_start) * (int y_end - int y_start) * 2 \<le> max_tris"
      by (simp only: rect prod.case)
  qed
  with g(1,2,3) show ?thesis by blast
qed

lemma tiling_5_3_10: "tiling 5 3 10 = Inr (2, 2, 3, 2)"
  by (simp add: tiling_def Let_def isqrt.simps truediv_def math_ceil_def fl_def binade_def
      bit_length.simps round_half_even_def pow2_def)

theorem tile_within_triangle_budget_witness:
  "tiling 5 3 10 = Inr (2, 2, 3, 2) \<and>
   tile_rect 5 3 2 2 2 1 = (4, 5, 2, 3) \<and>
   (int 5 - int 4) * (int 3 - int 2) * 2 \<le> (10::int)"
proof -
  have "(1::nat) \<le> 5" "(5::nat) < 2 ^ 31" "(1::nat) \<le> 3" "(3::nat) < 2 ^ 31" "(2::int) \<le> 10"
    by simp_all
  from tile_within_triangle_budget [OF this] obtain c r nx ny where
    t: "tiling 5 3 10 = Inr (c, r, nx, ny)" and
    b: "\<forall>tile_x < nx. \<forall>tile_y < ny.
          case tile_rect 5 3 c r tile_x tile_y of
            (x_start, x_end, y_start, y_end) \<Rightarrow>
              x_start < x_end \<and> y_start < y_end \<and>
              (int x_end - int x_start) * (int y_end - int y_start) * 2 \<le> 10"
    by blast
  from t have eq: "c = 2" "r = 2" "nx = 3" "ny = 2"
    by (simp_all add: tiling_5_3_10)
  have rect: "tile_rect 5 3 2 2 2 1 = (4, 5, 2, 3)"
    by (simp add: tile_rect_def)
  from b have "case tile_rect 5 3 2 2 2 1 of
            (x_start, x_end, y_start, y_end) \<Rightarrow>
              x_start < x_end \<and> y_start < y_end \<and>
              (int x_end - int x_start) * (int y_end - int y_start) * 2 \<le> 10"
    unfolding eq by simp
  then show ?thesis
    unfolding rect by (simp add: tiling_5_3_10)
qed

lemma in_tile_region:
  "(y, x) \<in> tile_region orig_w orig_h c r (tile_y, tile_x) \<longleftrightarrow>
     tile_x * c \<le> x \<and> x < min ((tile_x + 1) * c) orig_w \<and>
     tile_y * r \<le> y \<and> y < min ((tile_y + 1) * r) orig_h"
  by (simp add: tile_region_def tile_pixel_list_def tile_rect_def in_tile_pixels)

lemma in_tiles: "(tile_y, tile_x) \<in> set (tiles nx ny) \<longleftrightarrow> tile_x < nx \<and> tile_y < ny"
  by (auto simp: tiles_def)

text \<open>
  C3. For an image of width and height at least 1 and a budget of at least 2, the tile
  rectangles of the grid, skipped or not, partition the pixels of the image: their union
  is \<open>[0,h) \<times> [0,w)\<close> (as pairs \<open>(y, x)\<close>) and two different tiles share no pixel.
\<close>

theorem tiles_partition_image:
  assumes "1 \<le> orig_w" "orig_w < 2 ^ 31" "1 \<le> orig_h" "orig_h < 2 ^ 31" "2 \<le> max_tris"
  shows "\<exists>cols_per_mesh rows_per_mesh num_meshes_x num_meshes_y.
           tiling orig_w orig_h max_tris =
             Inr (cols_per_mesh, rows_per_mesh, num_meshes_x, num_meshes_y) \<and>
           (\<Union>t \<in> set (tiles num_meshes_x num_meshes_y).
              tile_region orig_w orig_h cols_per_mesh rows_per_mesh t) =
             {0..<orig_h} \<times> {0..<orig_w} \<and>
           (\<forall>t \<in> set (tiles num_meshes_x num_meshes_y).
            \<forall>t' \<in> set (tiles num_meshes_x num_meshes_y).
              t \<noteq> t' \<longrightarrow>
              tile_region orig_w orig_h cols_per_mesh rows_per_mesh t \<inter>
              tile_region orig_w orig_h cols_per_mesh rows_per_mesh t' = {})"
proof -
  obtain c r nx ny where g:
    "tiling orig_w orig_h max_tris = Inr (c, r, nx, ny)"
    "0 < c" "0 < r"
    "orig_w \<le> nx * c" "(nx - 1) * c < orig_w"
    "orig_h \<le> ny * r" "(ny - 1) * r < orig_h"
    by (rule tiling_grid [OF assms])
  have union: "(\<Union>t \<in> set (tiles nx ny). tile_region orig_w orig_h c r t) =
               {0..<orig_h} \<times> {0..<orig_w}"
  proof (intro set_eqI iffI)
    fix p
    assume p: "p \<in> (\<Union>t \<in> set (tiles nx ny). tile_region orig_w orig_h c r t)"
    obtain y x where yx: "p = (y, x)" by (cases p)
    from p obtain tile_y tile_x where
      "(y, x) \<in> tile_region orig_w orig_h c r (tile_y, tile_x)"
      unfolding yx by auto
    then have "x < orig_w" "y < orig_h" by (simp_all add: in_tile_region)
    then show "p \<in> {0..<orig_h} \<times> {0..<orig_w}" by (simp add: yx)
  next
    fix p
    assume p: "p \<in> {0..<orig_h} \<times> {0..<orig_w}"
    obtain y x where yx: "p = (y, x)" by (cases p)
    from p have x: "x < orig_w" and y: "y < orig_h" by (simp_all add: yx)
    have "(y div r, x div c) \<in> set (tiles nx ny)"
      using axis_cover(1) [OF g(2) g(4) x] axis_cover(1) [OF g(3) g(6) y]
      by (simp add: in_tiles)
    moreover have "(y, x) \<in> tile_region orig_w orig_h c r (y div r, x div c)"
      using axis_cover(2,3) [OF g(2) g(4) x] axis_cover(2,3) [OF g(3) g(6) y]
      by (simp only: in_tile_region)
    ultimately show "p \<in> (\<Union>t \<in> set (tiles nx ny). tile_region orig_w orig_h c r t)"
      unfolding yx by blast
  qed
  have disjoint: "tile_region orig_w orig_h c r t \<inter> tile_region orig_w orig_h c r t' = {}"
    if "t \<noteq> t'" for t t'
  proof (rule ccontr)
    assume "tile_region orig_w orig_h c r t \<inter> tile_region orig_w orig_h c r t' \<noteq> {}"
    then obtain p where p: "p \<in> tile_region orig_w orig_h c r t"
      "p \<in> tile_region orig_w orig_h c r t'" by blast
    obtain y x where yx: "p = (y, x)" by (cases p)
    obtain ty tx where t: "t = (ty, tx)" by (cases t)
    obtain ty' tx' where t': "t' = (ty', tx')" by (cases t')
    from p(1) have "tx = x div c" "ty = y div r"
      unfolding yx t in_tile_region by (blast intro: axis_unique)+
    moreover from p(2) have "tx' = x div c" "ty' = y div r"
      unfolding yx t' in_tile_region by (blast intro: axis_unique)+
    ultimately show False using that t t' by simp
  qed
  from g(1) union disjoint show ?thesis by blast
qed


theorem tiles_partition_image_witness:
  "tiling 5 3 10 = Inr (2, 2, 3, 2) \<and>
   (\<Union>t \<in> set (tiles 3 2). tile_region 5 3 2 2 t) = {0..<3} \<times> {0..<5} \<and>
   tile_region 5 3 2 2 (0, 0) \<inter> tile_region 5 3 2 2 (1, 2) = {}"
proof -
  have "(1::nat) \<le> 5" "(5::nat) < 2 ^ 31" "(1::nat) \<le> 3" "(3::nat) < 2 ^ 31" "(2::int) \<le> 10"
    by simp_all
  from tiles_partition_image [OF this] obtain c r nx ny where
    "tiling 5 3 10 = Inr (c, r, nx, ny) \<and>
     (\<Union>t \<in> set (tiles nx ny). tile_region 5 3 c r t) = {0..<3} \<times> {0..<5} \<and>
     (\<forall>t \<in> set (tiles nx ny). \<forall>t' \<in> set (tiles nx ny).
          t \<noteq> t' \<longrightarrow> tile_region 5 3 c r t \<inter> tile_region 5 3 c r t' = {})"
    by (elim exE)
  note all = this
  note t = all [THEN conjunct1]
    and u = all [THEN conjunct2, THEN conjunct1]
    and d = all [THEN conjunct2, THEN conjunct2]
  from t have eq: "c = 2" "r = 2" "nx = 3" "ny = 2"
    by (simp_all add: tiling_5_3_10)
  have "(0, 0) \<in> set (tiles 3 2)" "(1, 2) \<in> set (tiles 3 2)" "(0::nat, 0::nat) \<noteq> (1, 2)"
    by (simp_all add: in_tiles)
  with d have "tile_region 5 3 2 2 (0, 0) \<inter> tile_region 5 3 2 2 (1, 2) = {}"
    unfolding eq by blast
  moreover note u [unfolded eq] tiling_5_3_10
  ultimately show ?thesis by (intro conjI)
qed

section \<open>File names of tiles\<close>

text \<open>Reading a decimal string back: \<open>str_nat\<close> loses nothing.\<close>

lemma of_char_digit: "d < 10 \<Longrightarrow> of_char (digit d) = (48 + d :: nat)"
proof -
  assume "d < 10"
  then have "d \<in> {0, 1, 2, 3, 4, 5, 6, 7, 8, 9}" by auto
  then show ?thesis by (auto simp: digit_def)
qed

lemma str_nat_digits: "\<forall>ch \<in> set (str_nat n). 48 \<le> (of_char ch :: nat) \<and> (of_char ch :: nat) < 58"
proof (induction n rule: str_nat.induct)
  case (1 n)
  show ?case
  proof (cases "n < 10")
    case True
    then show ?thesis
      by (subst str_nat.simps) (simp add: of_char_digit)
  next
    case False
    have "n mod 10 < 10" by simp
    then have "of_char (digit (n mod 10)) = (48 + n mod 10 :: nat)"
      by (rule of_char_digit)
    with 1 [OF False] False show ?thesis
      by (subst str_nat.simps) auto
  qed
qed

lemma str_nat_decode:
  "foldl (\<lambda>acc ch. 10 * acc + (of_char ch - 48)) 0 (str_nat n) = n"
proof (induction n rule: str_nat.induct)
  case (1 n)
  show ?case
  proof (cases "n < 10")
    case True
    then show ?thesis
      by (subst str_nat.simps) (simp add: of_char_digit)
  next
    case False
    have "n mod 10 < 10" by simp
    then have "of_char (digit (n mod 10)) = (48 + n mod 10 :: nat)"
      by (rule of_char_digit)
    with 1 [OF False] False show ?thesis
      by (subst str_nat.simps) simp
  qed
qed

lemma str_nat_inj: "str_nat a = str_nat b \<Longrightarrow> a = b"
  by (metis str_nat_decode)

lemma underscore_not_digit: "CHR ''_'' \<notin> set (str_nat n)"
proof
  assume "CHR ''_'' \<in> set (str_nat n)"
  with str_nat_digits [of n] have "(of_char CHR ''_'' :: nat) < 58" by blast
  then show False by simp
qed

lemma takeWhile_until:
  "x \<notin> set a \<Longrightarrow> takeWhile (\<lambda>ch. ch \<noteq> x) (a @ x # b) = a"
  by (induction a) auto

lemma split_at_underscore:
  assumes "CHR ''_'' \<notin> set a" "CHR ''_'' \<notin> set c" "a @ CHR ''_'' # b = c @ CHR ''_'' # d"
  shows "a = c \<and> b = d"
proof -
  have "takeWhile (\<lambda>ch. ch \<noteq> CHR ''_'') (a @ CHR ''_'' # b) = a"
    using assms(1) by (rule takeWhile_until)
  moreover have "takeWhile (\<lambda>ch. ch \<noteq> CHR ''_'') (c @ CHR ''_'' # d) = c"
    using assms(2) by (rule takeWhile_until)
  ultimately have "a = c" using assms(3) by simp
  with assms(3) show ?thesis by simp
qed

lemma tile_name_inj:
  assumes "tile_name tile_x tile_y = tile_name tile_x' tile_y'"
  shows "tile_x = tile_x' \<and> tile_y = tile_y'"
proof -
  from assms have "str_nat tile_x @ CHR ''_'' # str_nat tile_y
                   = str_nat tile_x' @ CHR ''_'' # str_nat tile_y'"
    by (simp add: tile_name_def)
  then have "str_nat tile_x = str_nat tile_x' \<and> str_nat tile_y = str_nat tile_y'"
    by (rule split_at_underscore [OF underscore_not_digit underscore_not_digit])
  then show ?thesis by (simp add: str_nat_inj)
qed

lemma tile_name_0_0: "tile_name 0 0 = ''pixel_mesh_0_0.obj''"
  by (simp add: tile_name_def str_nat.simps digit_def)

section \<open>The pixel loops and the transparency test\<close>

lemma mesh_text_Nil [simp]: "mesh_text px oh uv n [] = []"
  by (simp add: mesh_text_def)

lemma mesh_text_Cons:
  "mesh_text px oh uv n ((y, x) # ps) =
     write_pixel oh uv (px ! y ! x) x y (4 * n + 1) (4 * n + 1) @ mesh_text px oh uv (Suc n) ps"
  by (simp add: mesh_text_def)

lemma write_pixels_mesh_text:
  assumes "\<forall>(y, x) \<in> set ps. y < length px \<and> x < length (px ! y)"
  shows "write_pixels px oh uv ps (f, 4 * n + 1, 4 * n + 1) =
           Inr (f @ mesh_text px oh uv n ps,
                4 * (n + length ps) + 1, 4 * (n + length ps) + 1)"
  using assms
proof (induction ps arbitrary: f n)
  case Nil
  then show ?case by simp
next
  case (Cons p ps)
  obtain y x where p: "p = (y, x)" by (cases p)
  from Cons.prems have here: "pixel_at px y x = Inr (px ! y ! x)"
    by (simp add: p pixel_at_def)
  from Cons.prems have rest: "\<forall>(y, x) \<in> set ps. y < length px \<and> x < length (px ! y)"
    by simp
  have step: "4 * n + 1 + 4 = 4 * Suc n + 1" by simp
  show ?case
    unfolding p
    by (simp only: write_pixels.simps here sum.case step Cons.IH [OF rest] mesh_text_Cons)
       simp
qed

text \<open>Slices of a list, and the transparency test in terms of single pixels.\<close>

lemma set_slice: "set (slice a b xs) = {xs ! i | i. a \<le> i \<and> i < b \<and> i < length xs}"
proof (intro set_eqI iffI)
  fix v
  assume "v \<in> set (slice a b xs)"
  then obtain j where j: "j < length (slice a b xs)" "v = slice a b xs ! j"
    by (auto simp: in_set_conv_nth)
  then have "j < b - a" "a + j < length xs" by (auto simp: slice_def)
  moreover from this j have "v = xs ! (a + j)" by (simp add: slice_def)
  ultimately show "v \<in> {xs ! i | i. a \<le> i \<and> i < b \<and> i < length xs}"
    by (intro CollectI exI [of _ "a + j"]) simp
next
  fix v
  assume "v \<in> {xs ! i | i. a \<le> i \<and> i < b \<and> i < length xs}"
  then obtain i where i: "v = xs ! i" "a \<le> i" "i < b" "i < length xs" by blast
  then have "i - a < length (slice a b xs)" by (auto simp: slice_def)
  moreover have "slice a b xs ! (i - a) = v" using i by (simp add: slice_def)
  ultimately show "v \<in> set (slice a b xs)" by (metis nth_mem)
qed

lemma rectangular_row: "rectangular px \<Longrightarrow> y < length px \<Longrightarrow> length (px ! y) = width px"
  by (simp add: rectangular_def list_all_length)

lemma is_tile_fully_transparent_iff:
  assumes "rectangular px" "x_end \<le> width px" "y_end \<le> height px"
  shows "is_tile_fully_transparent px x_start x_end y_start y_end \<longleftrightarrow>
           (\<forall>(y, x) \<in> set (tile_pixels (x_start, x_end, y_start, y_end)). alpha (px ! y ! x) = 0)"
proof -
  have "is_tile_fully_transparent px x_start x_end y_start y_end \<longleftrightarrow>
          (\<forall>row \<in> set (slice y_start y_end px). \<forall>c \<in> set (slice x_start x_end row). alpha c = 0)"
    by (simp add: is_tile_fully_transparent_def list_all_iff)
  also have "\<dots> \<longleftrightarrow> (\<forall>y. y_start \<le> y \<and> y < y_end \<longrightarrow>
                         (\<forall>x. x_start \<le> x \<and> x < x_end \<longrightarrow> alpha (px ! y ! x) = 0))"
  proof (intro iffI allI impI)
    fix y x
    assume all: "\<forall>row \<in> set (slice y_start y_end px). \<forall>c \<in> set (slice x_start x_end row). alpha c = 0"
      and y: "y_start \<le> y \<and> y < y_end" and x: "x_start \<le> x \<and> x < x_end"
    from y assms(3) have yl: "y < length px" by (simp add: height_def)
    with y have "px ! y \<in> set (slice y_start y_end px)" by (auto simp: set_slice)
    moreover from x assms(2) rectangular_row [OF assms(1) yl]
    have "px ! y ! x \<in> set (slice x_start x_end (px ! y))" by (auto simp: set_slice)
    ultimately show "alpha (px ! y ! x) = 0" using all by blast
  next
    assume all: "\<forall>y. y_start \<le> y \<and> y < y_end \<longrightarrow>
                   (\<forall>x. x_start \<le> x \<and> x < x_end \<longrightarrow> alpha (px ! y ! x) = 0)"
    show "\<forall>row \<in> set (slice y_start y_end px). \<forall>c \<in> set (slice x_start x_end row). alpha c = 0"
      using all by (auto simp: set_slice)
  qed
  also have "\<dots> \<longleftrightarrow>
      (\<forall>(y, x) \<in> set (tile_pixels (x_start, x_end, y_start, y_end)). alpha (px ! y ! x) = 0)"
    by (auto simp: in_tile_pixels)
  finally show ?thesis .
qed

lemma tile_pixels_in_image:
  assumes "rectangular px"
  shows "\<forall>(y, x) \<in> set (tile_pixels (tile_rect (width px) (height px) c r tile_x tile_y)).
           y < length px \<and> x < length (px ! y)"
proof -
  have "y < length px \<and> x < length (px ! y)"
    if "(y, x) \<in> set (tile_pixels (tile_rect (width px) (height px) c r tile_x tile_y))"
    for y x
  proof -
    from that have x: "x < width px" and "y < height px"
      by (simp_all add: tile_rect_def in_tile_pixels)
    then have y: "y < length px" by (simp add: height_def)
    from rectangular_row [OF assms y] x y show ?thesis by simp
  qed
  then show ?thesis by blast
qed

lemma process_tile_Inr:
  assumes "rectangular px"
  shows "process_tile px uv (width px) (height px) c r tile_x tile_y st =
           Inr (if tile_skipped px (width px) (height px) c r (tile_y, tile_x)
                then st\<lparr>skipped_tiles := skipped_tiles st + 1\<rparr>
                else st\<lparr>mesh_paths := mesh_paths st @ [tile_file_name (tile_y, tile_x)],
                        files := (files st)(tile_file_name (tile_y, tile_x) \<mapsto>
                                   tile_text px uv (width px) (height px) c r (tile_y, tile_x))\<rparr>)"
proof -
  obtain x_start x_end y_start y_end where
    rect: "tile_rect (width px) (height px) c r tile_x tile_y = (x_start, x_end, y_start, y_end)"
    by (rule prod_cases4)
  have "write_pixels px (height px) uv (tile_pixels (x_start, x_end, y_start, y_end))
          ([Comment tile_x tile_y], 4 * 0 + 1, 4 * 0 + 1) =
        Inr ([Comment tile_x tile_y] @
               mesh_text px (height px) uv 0 (tile_pixels (x_start, x_end, y_start, y_end)),
             4 * (0 + length (tile_pixels (x_start, x_end, y_start, y_end))) + 1,
             4 * (0 + length (tile_pixels (x_start, x_end, y_start, y_end))) + 1)"
    using tile_pixels_in_image [OF assms, of c r tile_x tile_y]
    unfolding rect by (rule write_pixels_mesh_text)
  then have w: "write_pixels px (height px) uv (tile_pixels (x_start, x_end, y_start, y_end))
          ([Comment tile_x tile_y], 1, 1) =
        Inr (Comment tile_x tile_y #
               mesh_text px (height px) uv 0 (tile_pixels (x_start, x_end, y_start, y_end)),
             4 * length (tile_pixels (x_start, x_end, y_start, y_end)) + 1,
             4 * length (tile_pixels (x_start, x_end, y_start, y_end)) + 1)"
    by simp
  show ?thesis
    using w by (simp add: process_tile_def rect tile_skipped_def tile_file_name_def tile_text_def)
qed

lemma tile_file_name_inj: "tile_file_name t = tile_file_name t' \<Longrightarrow> t = t'"
  by (cases t, cases t') (auto simp: tile_file_name_def dest: tile_name_inj)

lemma tiles_loop_Inr:
  assumes "rectangular px" "distinct ts"
  shows "\<exists>st'. tiles_loop px uv (width px) (height px) c r ts st = Inr st' \<and>
           mesh_paths st' = mesh_paths st @
             map tile_file_name
               (filter (\<lambda>t. \<not> tile_skipped px (width px) (height px) c r t) ts) \<and>
           skipped_tiles st' = skipped_tiles st +
             length (filter (tile_skipped px (width px) (height px) c r) ts) \<and>
           (\<forall>t \<in> set ts. \<not> tile_skipped px (width px) (height px) c r t \<longrightarrow>
              files st' (tile_file_name t) =
                Some (tile_text px uv (width px) (height px) c r t)) \<and>
           (\<forall>n. (\<forall>t \<in> set ts. \<not> tile_skipped px (width px) (height px) c r t \<longrightarrow>
                    tile_file_name t \<noteq> n) \<longrightarrow> files st' n = files st n)"
  using assms(2)
proof (induction ts arbitrary: st)
  case Nil
  then show ?case by simp
next
  case (Cons t ts)
  obtain tile_y tile_x where t: "t = (tile_y, tile_x)" by (cases t)
  let ?skip = "tile_skipped px (width px) (height px) c r"
  let ?text = "tile_text px uv (width px) (height px) c r"
  define st1 where "st1 =
    (if ?skip t then st\<lparr>skipped_tiles := skipped_tiles st + 1\<rparr>
     else st\<lparr>mesh_paths := mesh_paths st @ [tile_file_name t],
             files := (files st)(tile_file_name t \<mapsto> ?text t)\<rparr>)"
  have p: "process_tile px uv (width px) (height px) c r tile_x tile_y st = Inr st1"
    unfolding st1_def t by (rule process_tile_Inr [OF assms(1)])
  from Cons.prems have d: "distinct ts" and tn: "t \<notin> set ts" by simp_all
  from Cons.IH [OF d, of st1] obtain st' where
    loop: "tiles_loop px uv (width px) (height px) c r ts st1 = Inr st'" and
    paths: "mesh_paths st' = mesh_paths st1 @ map tile_file_name (filter (\<lambda>t. \<not> ?skip t) ts)" and
    skipped: "skipped_tiles st' = skipped_tiles st1 + length (filter ?skip ts)" and
    written: "\<forall>t \<in> set ts. \<not> ?skip t \<longrightarrow> files st' (tile_file_name t) = Some (?text t)" and
    others: "\<forall>n. (\<forall>t \<in> set ts. \<not> ?skip t \<longrightarrow> tile_file_name t \<noteq> n) \<longrightarrow>
                  files st' n = files st1 n"
    by blast
  have 1: "tiles_loop px uv (width px) (height px) c r (t # ts) st = Inr st'"
    by (simp add: t p loop)
  have 2: "mesh_paths st' = mesh_paths st @
             map tile_file_name (filter (\<lambda>t. \<not> ?skip t) (t # ts))"
    by (simp add: paths st1_def)
  have 3: "skipped_tiles st' = skipped_tiles st + length (filter ?skip (t # ts))"
    by (simp add: skipped st1_def)
  have fresh: "\<forall>u \<in> set ts. tile_file_name u \<noteq> tile_file_name t"
    using tn by (auto dest: tile_file_name_inj)
  have 4: "\<forall>u \<in> set (t # ts). \<not> ?skip u \<longrightarrow> files st' (tile_file_name u) = Some (?text u)"
  proof (intro ballI impI)
    fix u
    assume u: "u \<in> set (t # ts)" "\<not> ?skip u"
    show "files st' (tile_file_name u) = Some (?text u)"
    proof (cases "u = t")
      case True
      from fresh others have "files st' (tile_file_name t) = files st1 (tile_file_name t)"
        by blast
      with u(2) True show ?thesis by (simp add: st1_def)
    next
      case False
      with u written show ?thesis by simp
    qed
  qed
  have 5: "\<forall>n. (\<forall>u \<in> set (t # ts). \<not> ?skip u \<longrightarrow> tile_file_name u \<noteq> n) \<longrightarrow>
                files st' n = files st n"
  proof (intro allI impI)
    fix n
    assume n: "\<forall>u \<in> set (t # ts). \<not> ?skip u \<longrightarrow> tile_file_name u \<noteq> n"
    then have "files st' n = files st1 n" using others by simp
    also have "\<dots> = files st n" using n by (auto simp: st1_def)
    finally show "files st' n = files st n" .
  qed
  from 1 2 3 4 5 show ?case by blast
qed

section \<open>The result of a run of the tiler\<close>

lemma distinct_tiles: "distinct (tiles nx ny)"
  by (simp add: tiles_def distinct_product)

lemma count_list_distinct: "distinct xs \<Longrightarrow> x \<in> set xs \<Longrightarrow> count_list xs x = 1"
  by (induction xs) auto

lemma tile_skipped_iff:
  assumes "rectangular px"
  shows "tile_skipped px (width px) (height px) c r t \<longleftrightarrow>
           (\<forall>(y, x) \<in> tile_region (width px) (height px) c r t. alpha (px ! y ! x) = 0)"
proof -
  obtain tile_y tile_x where t: "t = (tile_y, tile_x)" by (cases t)
  obtain x_start x_end y_start y_end where
    rect: "tile_rect (width px) (height px) c r tile_x tile_y = (x_start, x_end, y_start, y_end)"
    by (rule prod_cases4)
  then have "x_end \<le> width px" "y_end \<le> height px"
    by (auto simp: tile_rect_def)
  from is_tile_fully_transparent_iff [OF assms this, of x_start y_start]
  show ?thesis
    by (simp add: t tile_skipped_def tile_region_def tile_pixel_list_def rect)
qed

text \<open>What a run of the tiler leaves behind, for a decoded image and a budget of at least 2.\<close>

lemma create_tiled_meshes_result:
  assumes "decoded_image px" "2 \<le> max_tris"
  shows "\<exists>st c r nx ny.
    tiling (width px) (height px) max_tris = Inr (c, r, nx, ny) \<and>
    create_tiled_meshes px uv (width px, height px) max_tris = Inr st \<and>
    (\<forall>t \<in> set (tiles nx ny). \<not> tile_skipped px (width px) (height px) c r t \<longrightarrow>
       files st (tile_file_name t) = Some (tile_text px uv (width px) (height px) c r t) \<and>
       count_list (mesh_paths st) (tile_file_name t) = 1) \<and>
    (\<forall>t \<in> set (tiles nx ny). tile_skipped px (width px) (height px) c r t \<longrightarrow>
       files st (tile_file_name t) = None \<and> tile_file_name t \<notin> set (mesh_paths st)) \<and>
    (\<forall>n. files st n \<noteq> None \<longrightarrow> n \<in> tile_file_name ` set (tiles nx ny))"
proof -
  from assms(1) have rect: "rectangular px"
    and dims: "1 \<le> width px" "width px < 2 ^ 31" "1 \<le> height px" "height px < 2 ^ 31"
    by (simp_all add: decoded_image_def)
  obtain c r nx ny where
    t: "tiling (width px) (height px) max_tris = Inr (c, r, nx, ny)"
    by (rule tiling_grid [OF dims assms(2)])
  let ?skip = "tile_skipped px (width px) (height px) c r"
  let ?text = "tile_text px uv (width px) (height px) c r"
  let ?st0 = "\<lparr>mesh_paths = [], skipped_tiles = 0, files = Map.empty\<rparr>"
  from tiles_loop_Inr [OF rect distinct_tiles, of uv c r nx ny ?st0] obtain st where
    loop: "tiles_loop px uv (width px) (height px) c r (tiles nx ny) ?st0 = Inr st" and
    paths: "mesh_paths st = mesh_paths ?st0 @
              map tile_file_name (filter (\<lambda>t. \<not> ?skip t) (tiles nx ny))" and
    written: "\<forall>t \<in> set (tiles nx ny). \<not> ?skip t \<longrightarrow>
                files st (tile_file_name t) = Some (?text t)" and
    others: "\<forall>n. (\<forall>t \<in> set (tiles nx ny). \<not> ?skip t \<longrightarrow> tile_file_name t \<noteq> n) \<longrightarrow>
                files st n = files ?st0 n"
    by blast
  have paths': "mesh_paths st = map tile_file_name (filter (\<lambda>t. \<not> ?skip t) (tiles nx ny))"
    using paths by simp
  have inj: "inj tile_file_name"
    by (rule injI) (rule tile_file_name_inj)
  have 1: "create_tiled_meshes px uv (width px, height px) max_tris = Inr st"
    by (simp add: create_tiled_meshes_def t loop)
  have 2: "\<forall>u \<in> set (tiles nx ny). \<not> ?skip u \<longrightarrow>
       files st (tile_file_name u) = Some (?text u) \<and>
       count_list (mesh_paths st) (tile_file_name u) = 1"
  proof (intro ballI impI)
    fix u
    assume u: "u \<in> set (tiles nx ny)" "\<not> ?skip u"
    then have "u \<in> set (filter (\<lambda>t. \<not> ?skip t) (tiles nx ny))" by simp
    moreover have "distinct (filter (\<lambda>t. \<not> ?skip t) (tiles nx ny))"
      using distinct_tiles by (rule distinct_filter)
    ultimately have "count_list (filter (\<lambda>t. \<not> ?skip t) (tiles nx ny)) u = 1"
      by (intro count_list_distinct)
    then have "count_list (mesh_paths st) (tile_file_name u) = 1"
      by (simp add: paths' count_list_map_conv [OF inj])
    with written u show "files st (tile_file_name u) = Some (?text u) \<and>
       count_list (mesh_paths st) (tile_file_name u) = 1" by blast
  qed
  have 3: "\<forall>u \<in> set (tiles nx ny). ?skip u \<longrightarrow>
       files st (tile_file_name u) = None \<and> tile_file_name u \<notin> set (mesh_paths st)"
  proof (intro ballI impI)
    fix u
    assume u: "u \<in> set (tiles nx ny)" "?skip u"
    have no: "\<forall>t \<in> set (tiles nx ny). \<not> ?skip t \<longrightarrow> tile_file_name t \<noteq> tile_file_name u"
      using u(2) by (auto dest: tile_file_name_inj)
    with others have "files st (tile_file_name u) = None" by simp
    moreover have "tile_file_name u \<notin> set (mesh_paths st)"
      using no by (auto simp: paths')
    ultimately show "files st (tile_file_name u) = None \<and> tile_file_name u \<notin> set (mesh_paths st)"
      by blast
  qed
  have 4: "\<forall>n. files st n \<noteq> None \<longrightarrow> n \<in> tile_file_name ` set (tiles nx ny)"
  proof (intro allI impI)
    fix n
    assume n: "files st n \<noteq> None"
    show "n \<in> tile_file_name ` set (tiles nx ny)"
    proof (rule ccontr)
      assume "n \<notin> tile_file_name ` set (tiles nx ny)"
      then have "\<forall>t \<in> set (tiles nx ny). \<not> ?skip t \<longrightarrow> tile_file_name t \<noteq> n" by blast
      with others have "files st n = None" by simp
      with n show False by simp
    qed
  qed
  show ?thesis
    by (intro exI [of _ st] exI [of _ c] exI [of _ r] exI [of _ nx] exI [of _ ny] conjI t 1 2 3 4)
qed

section \<open>Claims about the files of a run\<close>

text \<open>
  C1. For a decoded image and a budget of at least 2 the tiler ends without an exception,
  and for every tile of the grid: no file is written for the tile (its name is neither in
  the file system nor in \<open>mesh_paths\<close>) if and only if every pixel of its rectangle has
  alpha 0; when some pixel has alpha above 0, its file exists and its name is listed exactly
  once. File names of different tiles differ, and no other file is written.
\<close>

theorem skipped_iff_fully_transparent:
  assumes "decoded_image px" "2 \<le> max_tris"
  shows "\<exists>st c r nx ny.
           tiling (width px) (height px) max_tris = Inr (c, r, nx, ny) \<and>
           create_tiled_meshes px color_to_uv (width px, height px) max_tris = Inr st \<and>
           (\<forall>t \<in> set (tiles nx ny).
              ((files st (tile_file_name t) = None \<and> tile_file_name t \<notin> set (mesh_paths st))
                 \<longleftrightarrow> (\<forall>(y, x) \<in> tile_region (width px) (height px) c r t.
                        alpha (px ! y ! x) = 0)) \<and>
              ((\<exists>(y, x) \<in> tile_region (width px) (height px) c r t. 0 < alpha (px ! y ! x))
                 \<longrightarrow> files st (tile_file_name t) \<noteq> None \<and>
                     count_list (mesh_paths st) (tile_file_name t) = 1) \<and>
              (\<forall>t' \<in> set (tiles nx ny). tile_file_name t' = tile_file_name t \<longrightarrow> t' = t)) \<and>
           (\<forall>n. files st n \<noteq> None \<longrightarrow> n \<in> tile_file_name ` set (tiles nx ny))"
proof -
  from assms(1) have rect: "rectangular px" by (simp add: decoded_image_def)
  let ?res = "\<lambda>st c r nx ny.
    tiling (width px) (height px) max_tris = Inr (c, r, nx, ny) \<and>
    create_tiled_meshes px color_to_uv (width px, height px) max_tris = Inr st \<and>
    (\<forall>t \<in> set (tiles nx ny). \<not> tile_skipped px (width px) (height px) c r t \<longrightarrow>
       files st (tile_file_name t) =
         Some (tile_text px color_to_uv (width px) (height px) c r t) \<and>
       count_list (mesh_paths st) (tile_file_name t) = 1) \<and>
    (\<forall>t \<in> set (tiles nx ny). tile_skipped px (width px) (height px) c r t \<longrightarrow>
       files st (tile_file_name t) = None \<and> tile_file_name t \<notin> set (mesh_paths st)) \<and>
    (\<forall>n. files st n \<noteq> None \<longrightarrow> n \<in> tile_file_name ` set (tiles nx ny))"
  from create_tiled_meshes_result [OF assms, of color_to_uv]
  obtain st c r nx ny where "?res st c r nx ny" by (elim exE)
  note res = this [THEN conjunct1] this [THEN conjunct2, THEN conjunct1]
    this [THEN conjunct2, THEN conjunct2, THEN conjunct1, rule_format]
    this [THEN conjunct2, THEN conjunct2, THEN conjunct2, THEN conjunct1, rule_format]
    this [THEN conjunct2, THEN conjunct2, THEN conjunct2, THEN conjunct2, rule_format]
  let ?clear = "\<lambda>t. \<forall>(y, x) \<in> tile_region (width px) (height px) c r t. alpha (px ! y ! x) = 0"
  have skip: "tile_skipped px (width px) (height px) c r t \<longleftrightarrow> ?clear t" for t
    by (rule tile_skipped_iff [OF rect])
  have per_tile:
    "((files st (tile_file_name t) = None \<and> tile_file_name t \<notin> set (mesh_paths st))
        \<longleftrightarrow> ?clear t) \<and>
     ((\<exists>(y, x) \<in> tile_region (width px) (height px) c r t. 0 < alpha (px ! y ! x))
        \<longrightarrow> files st (tile_file_name t) \<noteq> None \<and>
            count_list (mesh_paths st) (tile_file_name t) = 1) \<and>
     (\<forall>t' \<in> set (tiles nx ny). tile_file_name t' = tile_file_name t \<longrightarrow> t' = t)"
    if t: "t \<in> set (tiles nx ny)" for t
  proof (cases "?clear t")
    case True
    then have "tile_skipped px (width px) (height px) c r t" by (simp add: skip)
    from res(4) [OF t this] True show ?thesis
      by (auto dest: tile_file_name_inj)
  next
    case False
    then have "\<not> tile_skipped px (width px) (height px) c r t" by (simp add: skip)
    from res(3) [OF t this] False show ?thesis
      by (auto dest: tile_file_name_inj)
  qed
  from res(1,2) per_tile res(5) show ?thesis by blast
qed

lemma tiling_2_1_2: "tiling 2 1 2 = Inr (1, 1, 2, 1)"
  by (simp add: tiling_def Let_def isqrt.simps truediv_def math_ceil_def fl_def binade_def
      bit_length.simps round_half_even_def pow2_def)

lemma example_run_2:
  "create_tiled_meshes [[(1, 2, 3, 255), (0, 0, 0, 0)]] Map.empty (2, 1) 2 =
     Inr \<lparr>mesh_paths = [''pixel_mesh_0_0.obj''], skipped_tiles = 1,
          files = [''pixel_mesh_0_0.obj'' \<mapsto>
            [Comment 0 0, V 0 1 0, V 1 1 0, V 1 0 0, V 0 0 0,
             VT 0 1, VT 0 1, VT 0 1, VT 0 1, F [(1, 1), (2, 2), (3, 3), (4, 4)]]]\<rparr>"
  by (simp only: create_tiled_meshes_def prod.case tiling_2_1_2 sum.case)
     (simp add: tiles_def upt_conv_Cons numeral_2_eq_2 [symmetric] process_tile_def tile_rect_def
      is_tile_fully_transparent_def slice_def alpha_def tile_pixels_def pixel_at_def
      write_pixel_def tile_name_def str_nat.simps digit_def fl_def binade_def
      bit_length.simps round_half_even_def pow2_def)


lemma example_image:
  "decoded_image [[(1, 2, 3, 255), (0, 0, 0, 0)]]"
  "width [[(1, 2, 3, 255), (0, 0, 0, 0)]] = 2"
  "height [[(1, 2, 3, 255), (0, 0, 0, 0)]] = 1"
  by (simp_all add: decoded_image_def rectangular_def width_def height_def)

lemma example_regions:
  "tile_region 2 1 1 1 (0, 0) = {(0, 0)}"
  "tile_region 2 1 1 1 (0, 1) = {(0, 1)}"
  by (simp_all add: tile_region_def tile_pixel_list_def tile_rect_def tile_pixels_def)

theorem skipped_iff_fully_transparent_witness:
  "decoded_image [[(1, 2, 3, 255), (0, 0, 0, 0)]] \<and>
   (\<exists>st. create_tiled_meshes [[(1, 2, 3, 255), (0, 0, 0, 0)]] Map.empty (2, 1) 2 = Inr st \<and>
         files st (tile_file_name (0, 1)) = None \<and>
         tile_file_name (0, 1) \<notin> set (mesh_paths st) \<and>
         files st (tile_file_name (0, 0)) \<noteq> None \<and>
         count_list (mesh_paths st) (tile_file_name (0, 0)) = 1)"
proof -
  let ?px = "[[(1, 2, 3, 255), (0, 0, 0, 0)]] :: pixels"
  let ?P = "\<lambda>st c r nx ny.
           tiling 2 1 2 = Inr (c, r, nx, ny) \<and>
           create_tiled_meshes ?px Map.empty (2, 1) 2 = Inr st \<and>
           (\<forall>t \<in> set (tiles nx ny).
              ((files st (tile_file_name t) = None \<and> tile_file_name t \<notin> set (mesh_paths st))
                 \<longleftrightarrow> (\<forall>(y, x) \<in> tile_region 2 1 c r t. alpha (?px ! y ! x) = 0)) \<and>
              ((\<exists>(y, x) \<in> tile_region 2 1 c r t. 0 < alpha (?px ! y ! x))
                 \<longrightarrow> files st (tile_file_name t) \<noteq> None \<and>
                     count_list (mesh_paths st) (tile_file_name t) = 1) \<and>
              (\<forall>t' \<in> set (tiles nx ny). tile_file_name t' = tile_file_name t \<longrightarrow> t' = t)) \<and>
           (\<forall>n. files st n \<noteq> None \<longrightarrow> n \<in> tile_file_name ` set (tiles nx ny))"
  have "(2::int) \<le> 2" by simp
  from skipped_iff_fully_transparent [OF example_image(1) this, of Map.empty]
  obtain st c r nx ny where "?P st c r nx ny"
    unfolding example_image(2,3) by (elim exE)
  note all = this
  from all [THEN conjunct1, unfolded tiling_2_1_2]
  have eq: "c = 1" "r = 1" "nx = 2" "ny = 1"
    by simp_all
  note run = all [THEN conjunct2, THEN conjunct1]
  note tile = all [THEN conjunct2, THEN conjunct2, THEN conjunct1, unfolded eq, rule_format]
  have in_grid: "(0, 1) \<in> set (tiles 2 1)" "(0, 0) \<in> set (tiles 2 1)"
    by (simp_all add: in_tiles)
  from tile [OF in_grid(1), THEN conjunct1, unfolded example_regions]
  have skipped: "files st (tile_file_name (0, 1)) = None \<and>
                 tile_file_name (0, 1) \<notin> set (mesh_paths st)"
    by (simp add: alpha_def)
  from tile [OF in_grid(2), THEN conjunct2, THEN conjunct1, unfolded example_regions]
  have written: "files st (tile_file_name (0, 0)) \<noteq> None \<and>
                 count_list (mesh_paths st) (tile_file_name (0, 0)) = 1"
    by (simp add: alpha_def)
  from run skipped written example_image(1) show ?thesis by blast
qed

section \<open>The lines of a mesh file\<close>

lemma fl_one [simp]: "fl 1 = 1"
  using fl_of_nat [of 1] by simp

text \<open>The three kinds of lines that one pixel contributes.\<close>

lemma write_pixel_V:
  "filter is_V (write_pixel oh uv c x y vi ui) =
     [V (int x) (int oh - int y) 0, V (int x + 1) (int oh - int y) 0,
      V (int x + 1) (int oh - int y - 1) 0, V (int x) (int oh - int y - 1) 0]"
  by (simp add: write_pixel_def split: prod.splits)

lemma write_pixel_VT:
  "filter is_VT (write_pixel oh uv c x y vi ui) =
     replicate 4 (case uv c of Some (u, v) \<Rightarrow> VT u (fl (1 - v)) | None \<Rightarrow> VT 0 1)"
  by (simp add: write_pixel_def numeral_eq_Suc split: prod.splits option.splits)

lemma write_pixel_F:
  "filter is_F (write_pixel oh uv c x y vi ui) =
     (if 0 < alpha c
      then [F [(vi, ui), (vi + 1, ui + 1), (vi + 2, ui + 2), (vi + 3, ui + 3)]]
      else [])"
  by (simp add: write_pixel_def split: prod.splits)

lemma mesh_text_V: "length (filter is_V (mesh_text px oh uv n ps)) = 4 * length ps"
proof (induction ps arbitrary: n)
  case Nil
  show ?case by simp
next
  case (Cons p ps)
  obtain y x where p: "p = (y, x)" by (cases p)
  show ?case by (simp add: p mesh_text_Cons write_pixel_V Cons.IH)
qed

lemma mesh_text_VT:
  "filter is_VT (mesh_text px oh uv n ps) =
     concat (map (\<lambda>(y, x). replicate 4
                    (case uv (px ! y ! x) of Some (u, v) \<Rightarrow> VT u (fl (1 - v)) | None \<Rightarrow> VT 0 1))
                 ps)"
proof (induction ps arbitrary: n)
  case Nil
  show ?case by simp
next
  case (Cons p ps)
  obtain y x where p: "p = (y, x)" by (cases p)
  show ?case by (simp only: p mesh_text_Cons filter_append write_pixel_VT Cons.IH) simp
qed

lemma mesh_text_F:
  "filter is_F (mesh_text px oh uv n ps) =
     map (\<lambda>(k, (y, x)). F [(4 * k + 1, 4 * k + 1), (4 * k + 2, 4 * k + 2),
                            (4 * k + 3, 4 * k + 3), (4 * k + 4, 4 * k + 4)])
         (filter (\<lambda>(k, (y, x)). 0 < alpha (px ! y ! x)) (enumerate n ps))"
proof (induction ps arbitrary: n)
  case Nil
  show ?case by simp
next
  case (Cons p ps)
  obtain y x where p: "p = (y, x)" by (cases p)
  show ?case by (simp only: p mesh_text_Cons filter_append write_pixel_F Cons.IH) simp
qed

lemma length_filter_enumerate:
  "length (filter (\<lambda>(k, p). P p) (enumerate n ps)) = length (filter P ps)"
  by (induction ps arbitrary: n) simp_all

lemma mesh_text_F_count:
  "length (filter is_F (mesh_text px oh uv n ps)) =
     length (filter (\<lambda>(y, x). 0 < alpha (px ! y ! x)) ps)"
proof -
  have "(\<lambda>(k, (y, x)). 0 < alpha (px ! y ! x)) = (\<lambda>(k, p). case p of (y, x) \<Rightarrow> 0 < alpha (px ! y ! x))"
    by (simp add: fun_eq_iff)
  then show ?thesis
    by (simp add: mesh_text_F length_filter_enumerate)
qed

text \<open>A file that exists after the run is the text of a tile that was not skipped.\<close>

lemma written_file:
  assumes "\<forall>t \<in> set ts. \<not> skip t \<longrightarrow> fs (tile_file_name t) = Some (text t)"
    and "\<forall>t \<in> set ts. skip t \<longrightarrow> fs (tile_file_name t) = None"
    and "t \<in> set ts" "fs (tile_file_name t) = Some f"
  shows "f = text t"
  using assms by (cases "skip t") auto

lemma mesh_text_VT_count: "length (filter is_VT (mesh_text px oh uv n ps)) = 4 * length ps"
proof (induction ps arbitrary: n)
  case Nil
  show ?case by simp
next
  case (Cons p ps)
  obtain y x where p: "p = (y, x)" by (cases p)
  show ?case by (simp add: p mesh_text_Cons write_pixel_VT Cons.IH)
qed

lemma tile_text_eq:
  "tile_text px uv w h c r t =
     Comment (snd t) (fst t) # mesh_text px h uv 0 (tile_pixel_list w h c r t)"
  by (cases t) (simp add: tile_text_def tile_pixel_list_def)

lemma files_of_run:
  assumes "decoded_image px" "2 \<le> max_tris"
  shows "\<exists>st c r nx ny.
    tiling (width px) (height px) max_tris = Inr (c, r, nx, ny) \<and>
    create_tiled_meshes px uv (width px, height px) max_tris = Inr st \<and>
    (\<forall>t \<in> set (tiles nx ny). \<forall>f. files st (tile_file_name t) = Some f \<longrightarrow>
       f = tile_text px uv (width px) (height px) c r t)"
proof -
  let ?res = "\<lambda>st c r nx ny.
    tiling (width px) (height px) max_tris = Inr (c, r, nx, ny) \<and>
    create_tiled_meshes px uv (width px, height px) max_tris = Inr st \<and>
    (\<forall>t \<in> set (tiles nx ny). \<not> tile_skipped px (width px) (height px) c r t \<longrightarrow>
       files st (tile_file_name t) =
         Some (tile_text px uv (width px) (height px) c r t) \<and>
       count_list (mesh_paths st) (tile_file_name t) = 1) \<and>
    (\<forall>t \<in> set (tiles nx ny). tile_skipped px (width px) (height px) c r t \<longrightarrow>
       files st (tile_file_name t) = None \<and> tile_file_name t \<notin> set (mesh_paths st)) \<and>
    (\<forall>n. files st n \<noteq> None \<longrightarrow> n \<in> tile_file_name ` set (tiles nx ny))"
  from create_tiled_meshes_result [OF assms, of uv]
  obtain st c r nx ny where "?res st c r nx ny" by (elim exE)
  note res = this [THEN conjunct1] this [THEN conjunct2, THEN conjunct1]
    this [THEN conjunct2, THEN conjunct2, THEN conjunct1]
    this [THEN conjunct2, THEN conjunct2, THEN conjunct2, THEN conjunct1]
  have "\<forall>t \<in> set (tiles nx ny). \<forall>f. files st (tile_file_name t) = Some f \<longrightarrow>
       f = tile_text px uv (width px) (height px) c r t"
  proof (intro ballI allI impI)
    fix t f
    assume "t \<in> set (tiles nx ny)" "files st (tile_file_name t) = Some f"
    with res(3,4) show "f = tile_text px uv (width px) (height px) c r t"
      by (cases "tile_skipped px (width px) (height px) c r t") auto
  qed
  with res(1,2) show ?thesis by blast
qed

text \<open>
  C5. In the file of every tile that is not skipped there are exactly four \<open>v\<close> lines and
  four \<open>vt\<close> lines per pixel of the tile, and exactly one \<open>f\<close> line per pixel of the tile
  with alpha above 0; so the number of faces is at most a quarter of the number of
  vertices.
\<close>

theorem mesh_file_line_counts:
  assumes "decoded_image px" "2 \<le> max_tris"
  shows "\<exists>st c r nx ny.
    tiling (width px) (height px) max_tris = Inr (c, r, nx, ny) \<and>
    create_tiled_meshes px color_to_uv (width px, height px) max_tris = Inr st \<and>
    (\<forall>t \<in> set (tiles nx ny). \<forall>f. files st (tile_file_name t) = Some f \<longrightarrow>
       length (filter is_V f) = 4 * length (tile_pixel_list (width px) (height px) c r t) \<and>
       length (filter is_VT f) = 4 * length (tile_pixel_list (width px) (height px) c r t) \<and>
       length (filter is_F f) =
         length (filter (\<lambda>(y, x). 0 < alpha (px ! y ! x))
                   (tile_pixel_list (width px) (height px) c r t)) \<and>
       length (filter is_F f) \<le> length (filter is_V f) div 4)"
proof -
  let ?run = "\<lambda>st c r nx ny.
    tiling (width px) (height px) max_tris = Inr (c, r, nx, ny) \<and>
    create_tiled_meshes px color_to_uv (width px, height px) max_tris = Inr st \<and>
    (\<forall>t \<in> set (tiles nx ny). \<forall>f. files st (tile_file_name t) = Some f \<longrightarrow>
       f = tile_text px color_to_uv (width px) (height px) c r t)"
  from files_of_run [OF assms, of color_to_uv]
  obtain st c r nx ny where "?run st c r nx ny" by (elim exE)
  note run = this [THEN conjunct1] this [THEN conjunct2, THEN conjunct1]
    this [THEN conjunct2, THEN conjunct2, rule_format]
  have "length (filter is_V f) = 4 * length (tile_pixel_list (width px) (height px) c r t) \<and>
       length (filter is_VT f) = 4 * length (tile_pixel_list (width px) (height px) c r t) \<and>
       length (filter is_F f) =
         length (filter (\<lambda>(y, x). 0 < alpha (px ! y ! x))
                   (tile_pixel_list (width px) (height px) c r t)) \<and>
       length (filter is_F f) \<le> length (filter is_V f) div 4"
    if "t \<in> set (tiles nx ny)" "files st (tile_file_name t) = Some f" for t f
  proof -
    let ?ps = "tile_pixel_list (width px) (height px) c r t"
    have f: "f = Comment (snd t) (fst t) # mesh_text px (height px) color_to_uv 0 ?ps"
      using run(3) [OF that] by (simp only: tile_text_eq)
    have v: "length (filter is_V f) = 4 * length ?ps"
      by (simp add: f mesh_text_V)
    have vt: "length (filter is_VT f) = 4 * length ?ps"
      by (simp add: f mesh_text_VT_count)
    have fc: "length (filter is_F f) = length (filter (\<lambda>(y, x). 0 < alpha (px ! y ! x)) ?ps)"
      by (simp add: f mesh_text_F_count)
    have "length (filter (\<lambda>(y, x). 0 < alpha (px ! y ! x)) ?ps) \<le> length ?ps"
      by (rule length_filter_le)
    then have "length (filter is_F f) \<le> length (filter is_V f) div 4"
      by (simp add: v fc)
    with v vt fc show ?thesis by blast
  qed
  with run(1,2) show ?thesis by blast
qed

lemma tiling_2_1_8: "tiling 2 1 8 = Inr (2, 1, 1, 1)"
  by (simp add: tiling_def Let_def isqrt.simps truediv_def math_ceil_def fl_def binade_def
      bit_length.simps round_half_even_def pow2_def)

lemma example_run_8:
  "create_tiled_meshes [[(1, 2, 3, 255), (0, 0, 0, 0)]]
       [(1, 2, 3, 255) \<mapsto> (1 / 2, 1 / 4)] (2, 1) 8 =
     Inr \<lparr>mesh_paths = [''pixel_mesh_0_0.obj''], skipped_tiles = 0,
          files = [''pixel_mesh_0_0.obj'' \<mapsto>
            [Comment 0 0, V 0 1 0, V 1 1 0, V 1 0 0, V 0 0 0,
             VT (1 / 2) (3 / 4), VT (1 / 2) (3 / 4), VT (1 / 2) (3 / 4), VT (1 / 2) (3 / 4),
             F [(1, 1), (2, 2), (3, 3), (4, 4)],
             V 1 1 0, V 2 1 0, V 2 0 0, V 1 0 0,
             VT 0 1, VT 0 1, VT 0 1, VT 0 1]]\<rparr>"
  by (simp only: create_tiled_meshes_def prod.case tiling_2_1_8 sum.case)
     (simp add: tiles_def upt_conv_Cons numeral_2_eq_2 [symmetric] process_tile_def tile_rect_def
      is_tile_fully_transparent_def slice_def alpha_def tile_pixels_def pixel_at_def
      write_pixel_def tile_name_def str_nat.simps digit_def fl_def binade_def
      bit_length.simps round_half_even_def pow2_def)

lemma example_tile:
  "tile_pixel_list 2 1 2 1 (0, 0) = [(0, 0), (0, 1)]"
  "(0, 0) \<in> set (tiles 1 1)"
  "tile_file_name (0, 0) = ''pixel_mesh_0_0.obj''"
  by (simp_all add: tile_pixel_list_def tile_rect_def tile_pixels_def upt_conv_Cons
      in_tiles tile_file_name_def tile_name_0_0)

theorem mesh_file_line_counts_witness:
  "decoded_image [[(1, 2, 3, 255), (0, 0, 0, 0)]] \<and>
   (\<exists>st f. create_tiled_meshes [[(1, 2, 3, 255), (0, 0, 0, 0)]]
               [(1, 2, 3, 255) \<mapsto> (1 / 2, 1 / 4)] (2, 1) 8 = Inr st \<and>
           files st ''pixel_mesh_0_0.obj'' = Some f \<and>
           length (filter is_V f) = 8 \<and> length (filter is_VT f) = 8 \<and>
           length (filter is_F f) = 1)"
proof -
  let ?px = "[[(1, 2, 3, 255), (0, 0, 0, 0)]] :: pixels"
  let ?uv = "[(1, 2, 3, 255) \<mapsto> (1 / 2, 1 / 4)] :: uv_map"
  let ?P = "\<lambda>st c r nx ny.
    tiling 2 1 8 = Inr (c, r, nx, ny) \<and>
    create_tiled_meshes ?px ?uv (2, 1) 8 = Inr st \<and>
    (\<forall>t \<in> set (tiles nx ny). \<forall>f. files st (tile_file_name t) = Some f \<longrightarrow>
       length (filter is_V f) = 4 * length (tile_pixel_list 2 1 c r t) \<and>
       length (filter is_VT f) = 4 * length (tile_pixel_list 2 1 c r t) \<and>
       length (filter is_F f) =
         length (filter (\<lambda>(y, x). 0 < alpha (?px ! y ! x)) (tile_pixel_list 2 1 c r t)) \<and>
       length (filter is_F f) \<le> length (filter is_V f) div 4)"
  have "(2::int) \<le> 8" by simp
  from mesh_file_line_counts [OF example_image(1) this, of ?uv]
  obtain st c r nx ny where "?P st c r nx ny"
    unfolding example_image(2,3) by (elim exE)
  note all = this
  from all [THEN conjunct1, unfolded tiling_2_1_8]
  have eq: "c = 2" "r = 1" "nx = 1" "ny = 1"
    by simp_all
  note run = all [THEN conjunct2, THEN conjunct1]
  from run [unfolded example_run_8] obtain f where
    f: "files st ''pixel_mesh_0_0.obj'' = Some f" by auto
  from all [THEN conjunct2, THEN conjunct2, unfolded eq, rule_format, OF example_tile(2),
      unfolded example_tile, OF f]
  have "length (filter is_V f) = 8 \<and> length (filter is_VT f) = 8 \<and>
        length (filter is_F f) = 1"
    by (simp add: alpha_def)
  with run f example_image(1) show ?thesis by blast
qed

text \<open>
  C9. In the file of every tile that is not skipped, the \<open>vt\<close> lines are, pixel by pixel in
  the order of the scan, four equal lines \<open>vt u (1 - v)\<close> where \<open>(u, v)\<close> is the entry of
  the pixel's colour key in the map; a colour key that is not in the map gives the four
  lines \<open>vt 0 1\<close>, from the default \<open>(0, 0)\<close>, and the run does not fail.
\<close>

theorem uv_lines_of_mesh_file:
  assumes "decoded_image px" "2 \<le> max_tris"
  shows "\<exists>st c r nx ny.
    tiling (width px) (height px) max_tris = Inr (c, r, nx, ny) \<and>
    create_tiled_meshes px color_to_uv (width px, height px) max_tris = Inr st \<and>
    (\<forall>t \<in> set (tiles nx ny). \<forall>f. files st (tile_file_name t) = Some f \<longrightarrow>
       filter is_VT f =
         concat (map (\<lambda>(y, x). replicate 4
                        (case color_to_uv (px ! y ! x) of
                           Some (u, v) \<Rightarrow> VT u (fl (1 - v))
                         | None \<Rightarrow> VT 0 1))
                     (tile_pixel_list (width px) (height px) c r t)))"
proof -
  let ?run = "\<lambda>st c r nx ny.
    tiling (width px) (height px) max_tris = Inr (c, r, nx, ny) \<and>
    create_tiled_meshes px color_to_uv (width px, height px) max_tris = Inr st \<and>
    (\<forall>t \<in> set (tiles nx ny). \<forall>f. files st (tile_file_name t) = Some f \<longrightarrow>
       f = tile_text px color_to_uv (width px) (height px) c r t)"
  from files_of_run [OF assms, of color_to_uv]
  obtain st c r nx ny where "?run st c r nx ny" by (elim exE)
  note run = this [THEN conjunct1] this [THEN conjunct2, THEN conjunct1]
    this [THEN conjunct2, THEN conjunct2, rule_format]
  have "filter is_VT f =
         concat (map (\<lambda>(y, x). replicate 4
                        (case color_to_uv (px ! y ! x) of
                           Some (u, v) \<Rightarrow> VT u (fl (1 - v))
                         | None \<Rightarrow> VT 0 1))
                     (tile_pixel_list (width px) (height px) c r t))"
    if "t \<in> set (tiles nx ny)" "files st (tile_file_name t) = Some f" for t f
  proof -
    let ?ps = "tile_pixel_list (width px) (height px) c r t"
    have f: "f = Comment (snd t) (fst t) # mesh_text px (height px) color_to_uv 0 ?ps"
      using run(3) [OF that] by (simp only: tile_text_eq)
    show ?thesis by (simp add: f mesh_text_VT)
  qed
  with run(1,2) show ?thesis by blast
qed

theorem uv_lines_of_mesh_file_witness:
  "decoded_image [[(1, 2, 3, 255), (0, 0, 0, 0)]] \<and>
   (\<exists>st f. create_tiled_meshes [[(1, 2, 3, 255), (0, 0, 0, 0)]]
               [(1, 2, 3, 255) \<mapsto> (1 / 2, 1 / 4)] (2, 1) 8 = Inr st \<and>
           files st ''pixel_mesh_0_0.obj'' = Some f \<and>
           filter is_VT f =
             [VT (1 / 2) (3 / 4), VT (1 / 2) (3 / 4), VT (1 / 2) (3 / 4), VT (1 / 2) (3 / 4),
              VT 0 1, VT 0 1, VT 0 1, VT 0 1])"
proof -
  let ?px = "[[(1, 2, 3, 255), (0, 0, 0, 0)]] :: pixels"
  let ?uv = "[(1, 2, 3, 255) \<mapsto> (1 / 2, 1 / 4)] :: uv_map"
  let ?P = "\<lambda>st c r nx ny.
    tiling 2 1 8 = Inr (c, r, nx, ny) \<and>
    create_tiled_meshes ?px ?uv (2, 1) 8 = Inr st \<and>
    (\<forall>t \<in> set (tiles nx ny). \<forall>f. files st (tile_file_name t) = Some f \<longrightarrow>
       filter is_VT f =
         concat (map (\<lambda>(y, x). replicate 4
                        (case ?uv (?px ! y ! x) of
                           Some (u, v) \<Rightarrow> VT u (fl (1 - v))
                         | None \<Rightarrow> VT 0 1))
                     (tile_pixel_list 2 1 c r t)))"
  have "(2::int) \<le> 8" by simp
  from uv_lines_of_mesh_file [OF example_image(1) this, of ?uv]
  obtain st c r nx ny where "?P st c r nx ny"
    unfolding example_image(2,3) by (elim exE)
  note all = this
  from all [THEN conjunct1, unfolded tiling_2_1_8]
  have eq: "c = 2" "r = 1" "nx = 1" "ny = 1"
    by simp_all
  note run = all [THEN conjunct2, THEN conjunct1]
  from run [unfolded example_run_8] obtain f where
    f: "files st ''pixel_mesh_0_0.obj'' = Some f" by auto
  have half: "fl (3 / 4) = 3 / 4"
    by (simp add: fl_def binade_def bit_length.simps round_half_even_def pow2_def)
  from all [THEN conjunct2, THEN conjunct2, unfolded eq, rule_format, OF example_tile(2),
      unfolded example_tile, OF f]
  have "filter is_VT f =
             [VT (1 / 2) (3 / 4), VT (1 / 2) (3 / 4), VT (1 / 2) (3 / 4), VT (1 / 2) (3 / 4),
              VT 0 1, VT 0 1, VT 0 1, VT 0 1]"
    by (simp add: half numeral_eq_Suc)
  with run f example_image(1) show ?thesis by blast
qed

text \<open>
  C10. In the file of every tile that is not skipped, the \<open>f\<close> lines are, in the order of
  the scan, one line for each pixel with alpha above 0; the line of the pixel of rank
  \<open>k\<close> (counted from 0, row by row within the tile) holds the four pairs
  \<open>4k+1/4k+1\<close>, \<open>4k+2/4k+2\<close>, \<open>4k+3/4k+3\<close>, \<open>4k+4/4k+4\<close>. So every face has four
  pairs, the two indices of a pair are equal, and every index lies between 1 and four
  times the number of pixels of the tile, which is the number of \<open>v\<close> lines and of
  \<open>vt\<close> lines in the file.
\<close>

theorem face_lines_of_mesh_file:
  assumes "decoded_image px" "2 \<le> max_tris"
  shows "\<exists>st c r nx ny.
    tiling (width px) (height px) max_tris = Inr (c, r, nx, ny) \<and>
    create_tiled_meshes px color_to_uv (width px, height px) max_tris = Inr st \<and>
    (\<forall>t \<in> set (tiles nx ny). \<forall>f. files st (tile_file_name t) = Some f \<longrightarrow>
       filter is_F f =
         map (\<lambda>(k, (y, x)). F [(4 * k + 1, 4 * k + 1), (4 * k + 2, 4 * k + 2),
                                (4 * k + 3, 4 * k + 3), (4 * k + 4, 4 * k + 4)])
             (filter (\<lambda>(k, (y, x)). 0 < alpha (px ! y ! x))
                (enumerate 0 (tile_pixel_list (width px) (height px) c r t))) \<and>
       (\<forall>l \<in> set f. is_F l \<longrightarrow>
          length (face l) = 4 \<and>
          (\<forall>(i, j) \<in> set (face l).
             i = j \<and> 1 \<le> i \<and>
             i \<le> 4 * length (tile_pixel_list (width px) (height px) c r t) \<and>
             i \<le> length (filter is_V f) \<and> j \<le> length (filter is_VT f))))"
proof -
  let ?run = "\<lambda>st c r nx ny.
    tiling (width px) (height px) max_tris = Inr (c, r, nx, ny) \<and>
    create_tiled_meshes px color_to_uv (width px, height px) max_tris = Inr st \<and>
    (\<forall>t \<in> set (tiles nx ny). \<forall>f. files st (tile_file_name t) = Some f \<longrightarrow>
       f = tile_text px color_to_uv (width px) (height px) c r t)"
  from files_of_run [OF assms, of color_to_uv]
  obtain st c r nx ny where "?run st c r nx ny" by (elim exE)
  note run = this [THEN conjunct1] this [THEN conjunct2, THEN conjunct1]
    this [THEN conjunct2, THEN conjunct2, rule_format]
  let ?quad = "\<lambda>(k::nat, (y::nat, x::nat)).
                 F [(4 * k + 1, 4 * k + 1), (4 * k + 2, 4 * k + 2),
                    (4 * k + 3, 4 * k + 3), (4 * k + 4, 4 * k + 4)]"
  have "filter is_F f =
         map ?quad
             (filter (\<lambda>(k, (y, x)). 0 < alpha (px ! y ! x))
                (enumerate 0 (tile_pixel_list (width px) (height px) c r t))) \<and>
       (\<forall>l \<in> set f. is_F l \<longrightarrow>
          length (face l) = 4 \<and>
          (\<forall>(i, j) \<in> set (face l).
             i = j \<and> 1 \<le> i \<and>
             i \<le> 4 * length (tile_pixel_list (width px) (height px) c r t) \<and>
             i \<le> length (filter is_V f) \<and> j \<le> length (filter is_VT f)))"
    if "t \<in> set (tiles nx ny)" "files st (tile_file_name t) = Some f" for t f
  proof -
    let ?ps = "tile_pixel_list (width px) (height px) c r t"
    have f: "f = Comment (snd t) (fst t) # mesh_text px (height px) color_to_uv 0 ?ps"
      using run(3) [OF that] by (simp only: tile_text_eq)
    have faces: "filter is_F f =
         map ?quad (filter (\<lambda>(k, (y, x)). 0 < alpha (px ! y ! x)) (enumerate 0 ?ps))"
      by (simp add: f mesh_text_F)
    have v: "length (filter is_V f) = 4 * length ?ps"
      by (simp add: f mesh_text_V)
    have vt: "length (filter is_VT f) = 4 * length ?ps"
      by (simp add: f mesh_text_VT_count)
    have "length (face l) = 4 \<and>
          (\<forall>(i, j) \<in> set (face l).
             i = j \<and> 1 \<le> i \<and> i \<le> 4 * length ?ps \<and>
             i \<le> length (filter is_V f) \<and> j \<le> length (filter is_VT f))"
      if l: "l \<in> set f" "is_F l" for l
    proof -
      from l have "l \<in> set (filter is_F f)" by simp
      then obtain k y x where
        kp: "(k, (y, x)) \<in> set (enumerate 0 ?ps)" and
        lq: "l = F [(4 * k + 1, 4 * k + 1), (4 * k + 2, 4 * k + 2),
                    (4 * k + 3, 4 * k + 3), (4 * k + 4, 4 * k + 4)]"
        unfolding faces by auto
      from kp have "k < length ?ps" by (simp add: in_set_enumerate_eq)
      then have bound: "4 * k + 4 \<le> 4 * length ?ps" by simp
      have quad: "face l = [(4 * k + 1, 4 * k + 1), (4 * k + 2, 4 * k + 2),
                            (4 * k + 3, 4 * k + 3), (4 * k + 4, 4 * k + 4)]"
        by (simp add: lq)
      show ?thesis unfolding quad v vt using bound by simp
    qed
    then have "\<forall>l \<in> set f. is_F l \<longrightarrow>
          length (face l) = 4 \<and>
          (\<forall>(i, j) \<in> set (face l).
             i = j \<and> 1 \<le> i \<and> i \<le> 4 * length ?ps \<and>
             i \<le> length (filter is_V f) \<and> j \<le> length (filter is_VT f))"
      by (intro ballI impI)
    with faces show ?thesis by (intro conjI)
  qed
  then have "\<forall>t \<in> set (tiles nx ny). \<forall>f. files st (tile_file_name t) = Some f \<longrightarrow>
       filter is_F f =
         map ?quad
             (filter (\<lambda>(k, (y, x)). 0 < alpha (px ! y ! x))
                (enumerate 0 (tile_pixel_list (width px) (height px) c r t))) \<and>
       (\<forall>l \<in> set f. is_F l \<longrightarrow>
          length (face l) = 4 \<and>
          (\<forall>(i, j) \<in> set (face l).
             i = j \<and> 1 \<le> i \<and>
             i \<le> 4 * length (tile_pixel_list (width px) (height px) c r t) \<and>
             i \<le> length (filter is_V f) \<and> j \<le> length (filter is_VT f)))"
    by (intro ballI allI impI)
  with run(1,2) show ?thesis
    by (intro exI [of _ st] exI [of _ c] exI [of _ r] exI [of _ nx] exI [of _ ny] conjI)
qed


theorem face_lines_of_mesh_file_witness:
  "decoded_image [[(1, 2, 3, 255), (0, 0, 0, 0)]] \<and>
   (\<exists>st f. create_tiled_meshes [[(1, 2, 3, 255), (0, 0, 0, 0)]]
               [(1, 2, 3, 255) \<mapsto> (1 / 2, 1 / 4)] (2, 1) 8 = Inr st \<and>
           files st ''pixel_mesh_0_0.obj'' = Some f \<and>
           filter is_F f = [F [(1, 1), (2, 2), (3, 3), (4, 4)]])"
proof -
  let ?px = "[[(1, 2, 3, 255), (0, 0, 0, 0)]] :: pixels"
  let ?uv = "[(1, 2, 3, 255) \<mapsto> (1 / 2, 1 / 4)] :: uv_map"
  let ?P = "\<lambda>st c r nx ny.
    tiling 2 1 8 = Inr (c, r, nx, ny) \<and>
    create_tiled_meshes ?px ?uv (2, 1) 8 = Inr st \<and>
    (\<forall>t \<in> set (tiles nx ny). \<forall>f. files st (tile_file_name t) = Some f \<longrightarrow>
       filter is_F f =
         map (\<lambda>(k, (y, x)). F [(4 * k + 1, 4 * k + 1), (4 * k + 2, 4 * k + 2),
                                (4 * k + 3, 4 * k + 3), (4 * k + 4, 4 * k + 4)])
             (filter (\<lambda>(k, (y, x)). 0 < alpha (?px ! y ! x))
                (enumerate 0 (tile_pixel_list 2 1 c r t))) \<and>
       (\<forall>l \<in> set f. is_F l \<longrightarrow>
          length (face l) = 4 \<and>
          (\<forall>(i, j) \<in> set (face l).
             i = j \<and> 1 \<le> i \<and>
             i \<le> 4 * length (tile_pixel_list 2 1 c r t) \<and>
             i \<le> length (filter is_V f) \<and> j \<le> length (filter is_VT f))))"
  have "(2::int) \<le> 8" by simp
  from face_lines_of_mesh_file [OF example_image(1) this, of ?uv]
  obtain st c r nx ny where "?P st c r nx ny"
    unfolding example_image(2,3) by (elim exE)
  note all = this
  from all [THEN conjunct1, unfolded tiling_2_1_8]
  have eq: "c = 2" "r = 1" "nx = 1" "ny = 1"
    by simp_all
  note run = all [THEN conjunct2, THEN conjunct1]
  from run [unfolded example_run_8] obtain f where
    f: "files st ''pixel_mesh_0_0.obj'' = Some f" by auto
  from all [THEN conjunct2, THEN conjunct2, unfolded eq, rule_format, OF example_tile(2),
      unfolded example_tile, OF f, THEN conjunct1]
  have "filter is_F f = [F [(1, 1), (2, 2), (3, 3), (4, 4)]]"
    by (simp add: alpha_def)
  with run f example_image(1) show ?thesis by blast
qed

section \<open>Library functions: \<open>math.sqrt\<close>\<close>

text \<open>\<open>math.isqrt\<close> is monotone in the sense used below.\<close>

lemma le_isqrt: "a * a \<le> n \<Longrightarrow> a \<le> isqrt n"
proof (rule ccontr)
  assume a: "a * a \<le> n" and "\<not> a \<le> isqrt n"
  then have "isqrt n + 1 \<le> a" by simp
  then have "(isqrt n + 1) * (isqrt n + 1) \<le> a * a" by (intro mult_le_mono)
  with isqrt_correct [of n] a show False by linarith
qed

lemma isqrt_le_iff: "n \<le> a * a \<Longrightarrow> isqrt n \<le> a"
proof (rule ccontr)
  assume a: "n \<le> a * a" and "\<not> isqrt n \<le> a"
  then have "a + 1 \<le> isqrt n" by simp
  then have "(a + 1) * (a + 1) \<le> isqrt n * isqrt n" by (intro mult_le_mono)
  with isqrt_correct [of n] a show False by simp
qed

text \<open>The argument of the rounding in \<open>math_sqrt\<close>.\<close>

lemma math_sqrt_pos_eq:
  assumes "0 < n"
  shows "math_sqrt n =
           fl ((real (isqrt (n * 2 ^ 108)) +
                (if isqrt (n * 2 ^ 108) * isqrt (n * 2 ^ 108) = n * 2 ^ 108 then 0 else 1 / 2))
               / 2 ^ 54)"
  using assms by (simp add: math_sqrt_def Let_def)

lemma math_sqrt_ge_1:
  assumes "0 < n"
  shows "1 \<le> math_sqrt n"
proof -
  let ?s = "isqrt (n * 2 ^ 108)"
  let ?t = "(real ?s + (if ?s * ?s = n * 2 ^ 108 then 0 else 1 / 2)) / 2 ^ 54"
  have "(2::nat) ^ 54 * 2 ^ 54 \<le> n * 2 ^ 108" using assms by simp
  then have "2 ^ 54 \<le> ?s" by (rule le_isqrt)
  then have "(2::real) ^ 54 \<le> real ?s"
    by (metis of_nat_le_iff of_nat_numeral of_nat_power)
  then have "1 \<le> ?t" by (simp add: field_simps)
  then have "fl 1 \<le> fl ?t" by (intro fl_mono) simp_all
  then show ?thesis by (simp add: math_sqrt_pos_eq [OF assms])
qed

lemma math_sqrt_le:
  assumes "0 < n" "n \<le> k * k" "k < 2 ^ 53"
  shows "math_sqrt n \<le> real k"
proof -
  let ?s = "isqrt (n * 2 ^ 108)"
  let ?t = "(real ?s + (if ?s * ?s = n * 2 ^ 108 then 0 else 1 / 2)) / 2 ^ 54"
  have "n * 2 ^ 108 \<le> (k * 2 ^ 54) * (k * 2 ^ 54)"
    using assms(2) by (simp add: algebra_simps) 
  then have s: "?s \<le> k * 2 ^ 54" by (rule isqrt_le_iff)
  have "real ?s + (if ?s * ?s = n * 2 ^ 108 then 0 else 1 / 2) \<le> real (k * 2 ^ 54)"
  proof (cases "?s = k * 2 ^ 54")
    case True
    then have "n * 2 ^ 108 \<le> ?s * ?s"
      using \<open>n * 2 ^ 108 \<le> (k * 2 ^ 54) * (k * 2 ^ 54)\<close> by simp
    with isqrt_correct [of "n * 2 ^ 108"] have "?s * ?s = n * 2 ^ 108" by linarith
    with True show ?thesis by simp
  next
    case False
    with s have "?s + 1 \<le> k * 2 ^ 54" by simp
    then have "real (?s + 1) \<le> real (k * 2 ^ 54)" by (simp only: of_nat_le_iff)
    then show ?thesis by simp
  qed
  then have "?t \<le> real k" by (simp add: field_simps)
  moreover have "0 \<le> ?t" by simp
  ultimately have "fl ?t \<le> fl (real k)" by (intro fl_mono)
  then show ?thesis
    by (simp only: math_sqrt_pos_eq [OF assms(1)] fl_of_nat [OF assms(3)])
qed

text \<open>
  The number of columns \<open>ceil(sqrt(n))\<close> for a colour count between 1 and the capacity:
  it is the exact ceiling of the square root.
\<close>

lemma ceil_math_sqrt:
  assumes "0 < n" "n \<le> 2 ^ 20"
  defines "k \<equiv> nat \<lceil>math_sqrt n\<rceil>"
  shows "1 \<le> k" and "k \<le> 1024" and "n \<le> k * k"
proof -
  have ge1: "1 \<le> math_sqrt n" by (rule math_sqrt_ge_1 [OF assms(1)])
  then have "1 \<le> \<lceil>math_sqrt n\<rceil>" by simp
  then show k1: "1 \<le> k" unfolding k_def by linarith
  have "n \<le> 1024 * 1024" using assms(2) by simp
  from math_sqrt_le [OF assms(1) this] have "math_sqrt n \<le> 1024" by simp
  then have "\<lceil>math_sqrt n\<rceil> \<le> 1024" by (simp add: ceiling_le_iff)
  then show k1024: "k \<le> 1024" unfolding k_def by linarith
  have up: "math_sqrt n \<le> real k"
  proof -
    have "math_sqrt n \<le> real_of_int \<lceil>math_sqrt n\<rceil>" by simp
    also have "\<dots> = real k" using \<open>1 \<le> \<lceil>math_sqrt n\<rceil>\<close> unfolding k_def by simp
    finally show ?thesis .
  qed
  show "n \<le> k * k"
  proof (rule ccontr)
    assume "\<not> n \<le> k * k"
    then have less: "k * k + 1 \<le> n" by simp
    let ?s = "isqrt (n * 2 ^ 108)"
    let ?t = "(real ?s + (if ?s * ?s = n * 2 ^ 108 then 0 else 1 / 2)) / 2 ^ 54"
    define a where "a = k * 2 ^ 54 + 2 ^ 42"
    have "a * a = k * k * 2 ^ 108 + (k * 2 ^ 97 + 2 ^ 84)"
      by (simp add: a_def algebra_simps)
    also have "k * 2 ^ 97 + 2 ^ 84 \<le> (2::nat) ^ 108"
      using k1024 by simp
    finally have "a * a \<le> (k * k + 1) * 2 ^ 108" by (simp add: algebra_simps)
    also have "\<dots> \<le> n * 2 ^ 108" using less by (intro mult_le_mono) simp_all
    finally have "a \<le> ?s" by (rule le_isqrt)
    then have "real a \<le> real ?s" by (simp only: of_nat_le_iff)
    then have "real a / 2 ^ 54 \<le> ?t" by (simp add: field_simps)
    moreover have "real a / 2 ^ 54 = real (k * 2 ^ 12 + 1) * pow2 (- 12)"
      by (simp add: a_def pow2_def field_simps)
    ultimately have "real (k * 2 ^ 12 + 1) * pow2 (- 12) \<le> ?t" by simp
    moreover have "0 \<le> real (k * 2 ^ 12 + 1) * pow2 (- 12)" by (simp add: pow2_def)
    ultimately have "fl (real (k * 2 ^ 12 + 1) * pow2 (- 12)) \<le> fl ?t"
      by (intro fl_mono)
    moreover have "k * 2 ^ 12 + 1 < 2 ^ 53" using k1024 by simp
    then have "fl (real (k * 2 ^ 12 + 1) * pow2 (- 12)) = real (k * 2 ^ 12 + 1) * pow2 (- 12)"
      by (rule fl_exact_dyadic)
    ultimately have "real (k * 2 ^ 12 + 1) * pow2 (- 12) \<le> math_sqrt n"
      by (simp only: math_sqrt_pos_eq [OF assms(1)])
    moreover have "real k < real (k * 2 ^ 12 + 1) * pow2 (- 12)"
      by (simp add: pow2_def field_simps)
    ultimately show False using up by linarith
  qed
qed

end
